theory Spec2Isabelle
  imports Main "HOL-Library.Word" "HOL-Library.Sublist"
begin

section \<open>JavaScript strings\<close>

text \<open>
  A JavaScript string is a sequence of 16-bit code units; \<open>length\<close>, \<open>substring\<close>,
  \<open>trim\<close> and a regular expression without the \<open>u\<close> flag all work on code units.
  \<open>js\<close> turns an ASCII literal into such a sequence.
\<close>

type_synonym jschar = "16 word"
type_synonym jsstring = "jschar list"

definition ch :: "char \<Rightarrow> jschar" where
  "ch c = of_char c"

definition js :: "string \<Rightarrow> jsstring" where
  "js s = map ch s"

text \<open>ECMAScript LineTerminator: LF, CR, LS, PS.\<close>

definition is_line_terminator :: "jschar \<Rightarrow> bool" where
  "is_line_terminator c = (c = 0x000A \<or> c = 0x000D \<or> c = 0x2028 \<or> c = 0x2029)"

text \<open>
  The class \<open>\s\<close>, which is also what \<open>String.prototype.trim\<close> removes: WhiteSpace
  (TAB, VT, FF, SP, NBSP, ZWNBSP and the category Zs) and LineTerminator.
\<close>

definition is_space :: "jschar \<Rightarrow> bool" where
  "is_space c =
     (c = 0x0009 \<or> c = 0x000B \<or> c = 0x000C \<or> c = 0x0020 \<or> c = 0x00A0 \<or> c = 0x1680
      \<or> (0x2000 \<le> c \<and> c \<le> 0x200A) \<or> c = 0x202F \<or> c = 0x205F \<or> c = 0x3000
      \<or> c = 0xFEFF \<or> is_line_terminator c)"

definition trim :: "jsstring \<Rightarrow> jsstring" where
  "trim s = rev (dropWhile is_space (rev (dropWhile is_space s)))"

section \<open>The regular expressions of stripUrlsFromMarkdown\<close>

text \<open>
  Each matcher takes the input from the position where a match is attempted and returns
  the input after the match (\<open>None\<close>: no match at this position). Every quantifier of
  the five expressions is greedy and is followed by something that no character of its
  class can start, so the longest run is the only one that backtracking could accept;
  the two places where an alternative remains (the optional \<open>s\<close> of the scheme and the
  optional title group) are written out as a second attempt.
\<close>

fun lit :: "jsstring \<Rightarrow> jsstring \<Rightarrow> jsstring option" where
  "lit [] s = Some s"
| "lit (p # ps) [] = None"
| "lit (p # ps) (c # cs) = (if p = c then lit ps cs else None)"

text \<open>\<^verbatim>\<open>https?:\/\/\<close>\<close>

definition scheme :: "jsstring \<Rightarrow> jsstring option" where
  "scheme s =
     (case lit (js ''http'') s of
        None \<Rightarrow> None
      | Some r \<Rightarrow>
          (case (case lit (js ''s'') r of None \<Rightarrow> None | Some r1 \<Rightarrow> lit (js ''://'') r1) of
             Some r2 \<Rightarrow> Some r2
           | None \<Rightarrow> lit (js ''://'') r))"

text \<open>\<^verbatim>\<open>\s+"[^"]*"\<close>, the body of the optional title group.\<close>

definition title_part :: "jsstring \<Rightarrow> jsstring option" where
  "title_part s =
     (if takeWhile is_space s = [] then None
      else
        (case lit [ch (CHR 0x22)] (dropWhile is_space s) of
           None \<Rightarrow> None
         | Some r \<Rightarrow> lit [ch (CHR 0x22)] (dropWhile (\<lambda>c. c \<noteq> ch (CHR 0x22)) r)))"

text \<open>\<^verbatim>\<open>[^\s)]\<close>\<close>

definition url_char :: "jschar \<Rightarrow> bool" where
  "url_char c = (\<not> is_space c \<and> c \<noteq> ch CHR '')'')"

text \<open>
  \<^verbatim>\<open>\[([^\]]*)\]\((https?:\/\/[^\s)]+)(?:\s+"[^"]*")?\)\<close>: the result is the first
  capture group (the link text) and the input after the match.
\<close>

definition link_re :: "jsstring \<Rightarrow> (jsstring \<times> jsstring) option" where
  "link_re s =
     (case lit (js ''['') s of
        None \<Rightarrow> None
      | Some r0 \<Rightarrow>
          (case lit (js '']('') (dropWhile (\<lambda>c. c \<noteq> ch CHR '']'') r0) of
             None \<Rightarrow> None
           | Some r1 \<Rightarrow>
               (case scheme r1 of
                  None \<Rightarrow> None
                | Some r2 \<Rightarrow>
                    if takeWhile url_char r2 = [] then None
                    else
                      (case (case title_part (dropWhile url_char r2) of
                               None \<Rightarrow> None
                             | Some r4 \<Rightarrow> lit (js '')'') r4) of
                         Some r5 \<Rightarrow> Some (takeWhile (\<lambda>c. c \<noteq> ch CHR '']'') r0, r5)
                       | None \<Rightarrow>
                           (case lit (js '')'') (dropWhile url_char r2) of
                              None \<Rightarrow> None
                            | Some r5 \<Rightarrow> Some (takeWhile (\<lambda>c. c \<noteq> ch CHR '']'') r0, r5))))))"

text \<open>\<^verbatim>\<open>!\[([^\]]*)\]\((https?:\/\/[^\s)]+)(?:\s+"[^"]*")?\)\<close>\<close>

definition image_re :: "jsstring \<Rightarrow> (jsstring \<times> jsstring) option" where
  "image_re s = (case lit (js ''!'') s of None \<Rightarrow> None | Some r \<Rightarrow> link_re r)"

text \<open>
  With the \<open>m\<close> flag, \<open>^\<close> holds at the start of the input and after a line terminator,
  \<open>$\<close> at the end of the input and before a line terminator.
\<close>

definition at_line_start :: "jschar option \<Rightarrow> bool" where
  "at_line_start prev = (case prev of None \<Rightarrow> True | Some c \<Rightarrow> is_line_terminator c)"

definition at_line_end :: "jsstring \<Rightarrow> bool" where
  "at_line_end s = (case s of [] \<Rightarrow> True | c # _ \<Rightarrow> is_line_terminator c)"

text \<open>
  \<^verbatim>\<open>^\[[^\]]+\]:\s*https?:\/\/[^\s]+(?:\s+"[^"]*")?$\<close>: \<open>prev\<close> is the code unit before
  the position (\<open>None\<close> at the start of the input). When the title group matches but
  \<open>$\<close> does not hold after it, the expression is tried again without the group.
\<close>

definition ref_re :: "jschar option \<Rightarrow> jsstring \<Rightarrow> jsstring option" where
  "ref_re prev s =
     (if \<not> at_line_start prev then None
      else
        (case lit (js ''['') s of
           None \<Rightarrow> None
         | Some r0 \<Rightarrow>
             if takeWhile (\<lambda>c. c \<noteq> ch CHR '']'') r0 = [] then None
             else
               (case lit (js '']:'') (dropWhile (\<lambda>c. c \<noteq> ch CHR '']'') r0) of
                  None \<Rightarrow> None
                | Some r1 \<Rightarrow>
                    (case scheme (dropWhile is_space r1) of
                       None \<Rightarrow> None
                     | Some r2 \<Rightarrow>
                         if takeWhile (\<lambda>c. \<not> is_space c) r2 = [] then None
                         else
                           (case (case title_part (dropWhile (\<lambda>c. \<not> is_space c) r2) of
                                    None \<Rightarrow> None
                                  | Some r4 \<Rightarrow> if at_line_end r4 then Some r4 else None) of
                              Some r5 \<Rightarrow> Some r5
                            | None \<Rightarrow>
                                if at_line_end (dropWhile (\<lambda>c. \<not> is_space c) r2)
                                then Some (dropWhile (\<lambda>c. \<not> is_space c) r2)
                                else None)))))"

text \<open>\<^verbatim>\<open><(https?:\/\/[^>]+)>\<close>\<close>

definition angle_re :: "jsstring \<Rightarrow> jsstring option" where
  "angle_re s =
     (case lit (js ''<'') s of
        None \<Rightarrow> None
      | Some r0 \<Rightarrow>
          (case scheme r0 of
             None \<Rightarrow> None
           | Some r1 \<Rightarrow>
               if takeWhile (\<lambda>c. c \<noteq> ch CHR ''>'') r1 = [] then None
               else lit (js ''>'') (dropWhile (\<lambda>c. c \<noteq> ch CHR ''>'') r1)))"

text \<open>\<^verbatim>\<open>https?:\/\/[^\s]+\<close>\<close>

definition bare_re :: "jsstring \<Rightarrow> jsstring option" where
  "bare_re s =
     (case scheme s of
        None \<Rightarrow> None
      | Some r \<Rightarrow>
          if takeWhile (\<lambda>c. \<not> is_space c) r = [] then None
          else Some (dropWhile (\<lambda>c. \<not> is_space c) r))"

section \<open>String.prototype.replace with a global regular expression\<close>

text \<open>
  A pattern gives, at a position, the replacement text and the input after the match.
  \<open>replace_all\<close> scans from left to right: where the pattern matches, the replacement is
  emitted and the scan goes on after the match; elsewhere the code unit is copied. A
  match that consumes nothing makes JavaScript advance by one code unit (the last branch;
  none of the five expressions can match the empty string).
\<close>

type_synonym pattern = "jschar option \<Rightarrow> jsstring \<Rightarrow> (jsstring \<times> jsstring) option"

fun replace_all :: "pattern \<Rightarrow> jschar option \<Rightarrow> jsstring \<Rightarrow> jsstring" where
  "replace_all m prev [] = (case m prev [] of None \<Rightarrow> [] | Some (rep, rest) \<Rightarrow> rep)"
| "replace_all m prev (c # cs) =
     (case m prev (c # cs) of
        None \<Rightarrow> c # replace_all m (Some c) cs
      | Some (rep, rest) \<Rightarrow>
          if length rest \<le> length cs
          then rep @ replace_all m (Some ((c # cs) ! (length cs - length rest))) rest
          else rep @ c # replace_all m (Some c) cs)"

text \<open>The five calls of \<open>replace\<close>: replacement \<open>$1\<close> for the first two, the empty string for the others.\<close>

definition image_pattern :: pattern where
  "image_pattern prev s = image_re s"

definition link_pattern :: pattern where
  "link_pattern prev s = link_re s"

definition ref_pattern :: pattern where
  "ref_pattern prev s = (case ref_re prev s of None \<Rightarrow> None | Some rest \<Rightarrow> Some ([], rest))"

definition angle_pattern :: pattern where
  "angle_pattern prev s = (case angle_re s of None \<Rightarrow> None | Some rest \<Rightarrow> Some ([], rest))"

definition bare_pattern :: pattern where
  "bare_pattern prev s = (case bare_re s of None \<Rightarrow> None | Some rest \<Rightarrow> Some ([], rest))"

definition stripUrlsFromMarkdown :: "jsstring \<Rightarrow> jsstring" where
  "stripUrlsFromMarkdown markdown =
     (let result = markdown;
          result = replace_all image_pattern None result;
          result = replace_all link_pattern None result;
          result = replace_all ref_pattern None result;
          result = replace_all angle_pattern None result;
          result = replace_all bare_pattern None result
      in trim result)"

text \<open>
  The expression of scrapeSearchResult that turns the scraped markdown into the content
  of a finding: \<^verbatim>\<open>stripUrlsFromMarkdown(rawText).substring(0, 80_000)\<close>.
\<close>

definition sanitize :: "jsstring \<Rightarrow> jsstring" where
  "sanitize rawText = take 80000 (stripUrlsFromMarkdown rawText)"

text \<open>
  Where a pattern matches in a string: at some position, with the code unit before that
  position as context. \<open>occurs p s\<close>: the literal \<open>p\<close> is a substring of \<open>s\<close>.
\<close>

fun has_match :: "pattern \<Rightarrow> jschar option \<Rightarrow> jsstring \<Rightarrow> bool" where
  "has_match m prev [] = (m prev [] \<noteq> None)"
| "has_match m prev (c # cs) = (m prev (c # cs) \<noteq> None \<or> has_match m (Some c) cs)"

fun occurs :: "jsstring \<Rightarrow> jsstring \<Rightarrow> bool" where
  "occurs p [] = (p = [])"
| "occurs p (c # cs) = (prefix p (c # cs) \<or> occurs p cs)"

definition url_at :: "jsstring \<Rightarrow> bool" where
  "url_at s = (bare_re s \<noteq> None)"

definition ends_with_space :: "jsstring \<Rightarrow> bool" where
  "ends_with_space s = (case rev s of [] \<Rightarrow> False | c # _ \<Rightarrow> is_space c)"

text \<open>
  Text in which no expression can start a match and which cannot close a link text or
  open a title: no \<open>!\<close>, \<open>[\<close>, \<open>]\<close>, \<open><\<close>, \<open>h\<close> and no double quote. The rest of a URL
  after its scheme, as it stands inside a link, an image, a reference definition, angle
  brackets or alone: not empty, without white space, \<open>)\<close>, \<open>>\<close>, \<open>!\<close>, \<open>[\<close> and \<open><\<close>.
\<close>

definition plain :: "jsstring \<Rightarrow> bool" where
  "plain s =
     list_all (\<lambda>c. c \<noteq> ch CHR ''!'' \<and> c \<noteq> ch CHR ''['' \<and> c \<noteq> ch CHR '']'' \<and> c \<noteq> ch CHR ''<''
                 \<and> c \<noteq> ch CHR ''h'' \<and> c \<noteq> ch (CHR 0x22)) s"

definition url_body :: "jsstring \<Rightarrow> bool" where
  "url_body u =
     (u \<noteq> [] \<and>
      list_all (\<lambda>c. \<not> is_space c \<and> c \<noteq> ch CHR '')'' \<and> c \<noteq> ch CHR ''>'' \<and> c \<noteq> ch CHR ''!''
                  \<and> c \<noteq> ch CHR ''['' \<and> c \<noteq> ch CHR ''<'') u)"

section \<open>The search provider's response\<close>

text \<open>
  The value that \<open>res.json()\<close> yields. The schema never looks inside a number, so the
  type of numbers is left open. An object is the list of its properties; a property that
  is absent reads as \<open>undefined\<close>, here \<open>None\<close>.
\<close>

datatype 'n json =
    JNull
  | JBool bool
  | JNumber 'n
  | JString jsstring
  | JArray "'n json list"
  | JObject "(jsstring \<times> 'n json) list"

definition get_prop :: "(jsstring \<times> 'n json) list \<Rightarrow> string \<Rightarrow> 'n json option" where
  "get_prop obj k = map_of obj (js k)"

text \<open>
  The zod schemas; \<open>None\<close> stands for the ZodError that \<open>parse\<close> throws.
  \<open>z.string()\<close> accepts a string only; \<open>.default([])\<close> and \<open>.optional()\<close> accept
  \<open>undefined\<close> and nothing else besides the inner schema (not \<open>null\<close>).
\<close>

definition z_string :: "'n json option \<Rightarrow> jsstring option" where
  "z_string v = (case v of Some (JString s) \<Rightarrow> Some s | _ \<Rightarrow> None)"

definition z_string_array_default :: "'n json option \<Rightarrow> jsstring list option" where
  "z_string_array_default v =
     (case v of
        None \<Rightarrow> Some []
      | Some (JArray xs) \<Rightarrow> those (map (\<lambda>x. z_string (Some x)) xs)
      | _ \<Rightarrow> None)"

definition z_meta_url :: "'n json option \<Rightarrow> jsstring option" where
  "z_meta_url v = (case v of Some (JObject m) \<Rightarrow> z_string (get_prop m ''favicon'') | _ \<Rightarrow> None)"

definition z_thumbnail :: "'n json option \<Rightarrow> jsstring option option" where
  "z_thumbnail v =
     (case v of
        None \<Rightarrow> Some None
      | Some (JObject t) \<Rightarrow>
          (case z_string (get_prop t ''original'') of None \<Rightarrow> None | Some s \<Rightarrow> Some (Some s))
      | _ \<Rightarrow> None)"

record brave_result =
  br_url :: jsstring
  br_title :: jsstring
  br_meta_url_favicon :: jsstring
  br_extra_snippets :: "jsstring list"
  br_thumbnail_original :: "jsstring option"

text \<open>The element schema of \<open>web.results\<close> (lines 33 to 45).\<close>

definition parse_brave_result :: "'n json \<Rightarrow> brave_result option" where
  "parse_brave_result v =
     (case v of
        JObject obj \<Rightarrow>
          (case z_string (get_prop obj ''url'') of
             None \<Rightarrow> None
           | Some u \<Rightarrow>
               (case z_string (get_prop obj ''title'') of
                  None \<Rightarrow> None
                | Some t \<Rightarrow>
                    (case z_meta_url (get_prop obj ''meta_url'') of
                       None \<Rightarrow> None
                     | Some f \<Rightarrow>
                         (case z_string_array_default (get_prop obj ''extra_snippets'') of
                            None \<Rightarrow> None
                          | Some es \<Rightarrow>
                              (case z_thumbnail (get_prop obj ''thumbnail'') of
                                 None \<Rightarrow> None
                               | Some th \<Rightarrow>
                                   Some \<lparr>br_url = u, br_title = t, br_meta_url_favicon = f,
                                         br_extra_snippets = es, br_thumbnail_original = th\<rparr>)))))
      | _ \<Rightarrow> None)"

text \<open>
  The outer shape \<^verbatim>\<open>{ web: { results: [...] } }\<close>: the array under \<open>web.results\<close>, if the
  response has it.
\<close>

definition web_results :: "'n json \<Rightarrow> 'n json list option" where
  "web_results v =
     (case v of
        JObject obj \<Rightarrow>
          (case get_prop obj ''web'' of
             Some (JObject w) \<Rightarrow>
               (case get_prop w ''results'' of Some (JArray rs) \<Rightarrow> Some rs | _ \<Rightarrow> None)
           | _ \<Rightarrow> None)
      | _ \<Rightarrow> None)"

text \<open>
  The whole schema of lines 29 to 49: \<open>z.array\<close> parses every element and fails when
  one of them fails.
\<close>

definition parse_response :: "'n json \<Rightarrow> brave_result list option" where
  "parse_response v =
     (case web_results v of
        None \<Rightarrow> None
      | Some rs \<Rightarrow> those (map parse_brave_result rs))"

record SearchResult =
  sr_title :: jsstring
  sr_url :: jsstring
  favicon :: jsstring
  extraSnippets :: "jsstring list"
  thumbnail :: "jsstring option"

definition to_search_result :: "brave_result \<Rightarrow> SearchResult" where
  "to_search_result r =
     \<lparr>sr_title = br_title r, sr_url = br_url r, favicon = br_meta_url_favicon r,
      extraSnippets = br_extra_snippets r, thumbnail = br_thumbnail_original r\<rparr>"

text \<open>
  \<open>z.array(searchResultSchema).parse(parsedResults)\<close> (lines 60 to 69): every field of
  \<open>parsedResults\<close> already has the type that the schema asks for, so this second parse
  returns its argument.
\<close>

definition schema_parse :: "SearchResult list \<Rightarrow> SearchResult list option" where
  "schema_parse parsedResults = Some parsedResults"

section \<open>The scrape provider\<close>

record scrape_params =
  formats :: "string list"
  timeout :: nat
  maxAge :: nat

record scrape_response =
  success :: bool
  markdown :: "jsstring option"
  error :: "jsstring option"

text \<open>
  What \<open>await firecrawl.scrapeUrl(...)\<close> does: it throws (the request timed out, the
  provider or the network failed) or it yields a response. A response that is not an
  object makes the first field access throw inside the same \<open>try\<close>, so it counts as
  \<open>Threw\<close>.
\<close>

datatype scrape_outcome = Threw | Returned scrape_response

text \<open>The condition \<open>if (scrapeResponse.error)\<close>: a string is truthy when it is not empty.\<close>

definition truthy :: "jsstring option \<Rightarrow> bool" where
  "truthy v = (case v of None \<Rightarrow> False | Some s \<Rightarrow> s \<noteq> [])"

definition scrape_options :: scrape_params where
  "scrape_options = \<lparr>formats = [''markdown''], timeout = 15000, maxAge = 12 * 60 * 60 * 1000\<rparr>"

record finding =
  title :: jsstring
  link :: jsstring
  content :: jsstring

text \<open>
  scrapeSearchResult (lines 72 to 100). \<open>scrapeUrl\<close> is the provider as this call sees
  it. Whatever is thrown inside \<open>try\<close> is caught, and \<open>scrapedText\<close> keeps its initial
  value, the empty string.
\<close>

definition scrapeSearchResult ::
  "(jsstring \<Rightarrow> scrape_params \<Rightarrow> scrape_outcome) \<Rightarrow> SearchResult \<Rightarrow> finding" where
  "scrapeSearchResult scrapeUrl searchResult =
     (let scrapedText =
        (case scrapeUrl (sr_url searchResult) scrape_options of
           Threw \<Rightarrow> []
         | Returned scrapeResponse \<Rightarrow>
             if truthy (error scrapeResponse) then []
             else if success scrapeResponse
             then (let rawText = (case markdown scrapeResponse of None \<Rightarrow> [] | Some m \<Rightarrow> m)
                   in sanitize rawText)
             else [])
      in \<lparr>title = sr_title searchResult, link = sr_url searchResult, content = scrapedText\<rparr>)"

section \<open>searchOnWeb\<close>

datatype error = RequestError | JsonSyntaxError | ZodError

text \<open>
  The search request: building the URL or \<open>fetch\<close> throws, or \<open>res.json()\<close> throws on a
  body that is not JSON, or the body is parsed.
\<close>

datatype 'n http_result = RequestFailed | NotJson | Json "'n json"

text \<open>
  The two providers. \<open>firecrawl w i\<close> is the provider as the scrape task of the \<open>i\<close>-th
  search result sees it, so that two tasks for the same URL may fare differently.
\<close>

record 'n web =
  brave :: "jsstring \<Rightarrow> 'n http_result"
  firecrawl :: "nat \<Rightarrow> jsstring \<Rightarrow> scrape_params \<Rightarrow> scrape_outcome"

text \<open>Lines 16 to 69: the search request and its validation.\<close>

definition search_phase :: "'n web \<Rightarrow> jsstring \<Rightarrow> error + SearchResult list" where
  "search_phase w query =
     (case brave w query of
        RequestFailed \<Rightarrow> Inl RequestError
      | NotJson \<Rightarrow> Inl JsonSyntaxError
      | Json responseJson \<Rightarrow>
          (case parse_response responseJson of
             None \<Rightarrow> Inl ZodError
           | Some parsedResponseJson \<Rightarrow>
               (let parsedResults = map to_search_result parsedResponseJson
                in case schema_parse parsedResults of
                     None \<Rightarrow> Inl ZodError
                   | Some searchResults \<Rightarrow> Inr searchResults)))"

datatype 'a settled = Fulfilled 'a | Rejected

definition is_fulfilled :: "'a settled \<Rightarrow> bool" where
  "is_fulfilled r = (case r of Fulfilled _ \<Rightarrow> True | Rejected \<Rightarrow> False)"

fun settled_value :: "finding settled \<Rightarrow> finding" where
  "settled_value (Fulfilled v) = v"
| "settled_value Rejected = \<lparr>title = [], link = [], content = []\<rparr>"

text \<open>
  Lines 102 to 114. scrapeSearchResult has no path that throws, so every promise given to
  \<open>Promise.allSettled\<close> is fulfilled; \<open>settled_value\<close> is only applied to what the
  filter on \<open>status === "fulfilled"\<close> has kept.
\<close>

definition fan_out :: "'n web \<Rightarrow> SearchResult list \<Rightarrow> finding list" where
  "fan_out w searchResults =
     (let resultsSettled =
            map (\<lambda>(i, r). Fulfilled (scrapeSearchResult (firecrawl w i) r))
              (enumerate 0 searchResults);
          results =
            filter (\<lambda>r. content r \<noteq> [])
              (map settled_value (filter is_fulfilled resultsSettled))
      in if length results = 0 then [] else results)"

definition searchOnWeb :: "'n web \<Rightarrow> jsstring \<Rightarrow> error + finding list" where
  "searchOnWeb w query =
     (case search_phase w query of
        Inl e \<Rightarrow> Inl e
      | Inr searchResults \<Rightarrow> Inr (fan_out w searchResults))"

text \<open>
  A scrape task counts as successful when the provider returned without an error, with
  \<open>success\<close> set, and the sanitized markdown is not empty; \<open>scraped_content\<close> is then the
  content of its finding.
\<close>

definition scraped_content :: "scrape_outcome \<Rightarrow> jsstring option" where
  "scraped_content out =
     (case out of
        Threw \<Rightarrow> None
      | Returned resp \<Rightarrow>
          if truthy (error resp) \<or> \<not> success resp then None
          else
            (case markdown resp of
               None \<Rightarrow> None
             | Some m \<Rightarrow> if sanitize m = [] then None else Some (sanitize m)))"

definition finding_of :: "SearchResult \<Rightarrow> scrape_outcome \<Rightarrow> finding option" where
  "finding_of r out =
     (case scraped_content out of
        None \<Rightarrow> None
      | Some c \<Rightarrow> Some \<lparr>title = sr_title r, link = sr_url r, content = c\<rparr>)"

section \<open>The status of a chat\<close>

text \<open>
  \<^verbatim>\<open>CREATE TYPE "public"."status" AS ENUM('questions', 'pending', 'processing', 'completed')\<close>,
  and the column \<^verbatim>\<open>"status" "status" DEFAULT 'questions' NOT NULL\<close>. The values of a
  PostgreSQL enum are ordered as they are listed.
\<close>

datatype status = Questions | Pending | Processing | Completed

definition status_labels :: "(string \<times> status) list" where
  "status_labels =
     [(''questions'', Questions), (''pending'', Pending), (''processing'', Processing),
      (''completed'', Completed)]"

definition status_of_label :: "string \<Rightarrow> status option" where
  "status_of_label l = map_of status_labels l"

definition status_default :: status where
  "status_default = Questions"

fun status_rank :: "status \<Rightarrow> nat" where
  "status_rank Questions = 0"
| "status_rank Pending = 1"
| "status_rank Processing = 2"
| "status_rank Completed = 3"

text \<open>
  Modelled from the spec: the code that updates \<open>chats.status\<close> is not among the sources;
  the spec gives the progression \<open>questions \<rightarrow> pending \<rightarrow> processing \<rightarrow> completed\<close>.
\<close>

fun advance :: "status \<Rightarrow> status option" where
  "advance Questions = Some Pending"
| "advance Pending = Some Processing"
| "advance Processing = Some Completed"
| "advance Completed = None"

inductive reaches :: "status \<Rightarrow> status \<Rightarrow> bool" where
  reaches_refl: "reaches s s"
| reaches_step: "reaches s t \<Longrightarrow> advance t = Some u \<Longrightarrow> reaches s u"

section \<open>Sample inputs\<close>

text \<open>
  Two well-formed hits, a response that holds both, one that holds a well-formed and a
  malformed hit (an object without the required fields), and providers to go with them:
  in \<open>web_two\<close> the first scrape succeeds and the second throws, in \<open>web_down\<close> every
  scrape throws, in \<open>web_bad\<close> the response is the one with the malformed hit.
\<close>

definition hit_a :: "int json" where
  "hit_a =
     JObject [(js ''url'', JString (js ''http://a.b'')), (js ''title'', JString (js ''A'')),
              (js ''meta_url'', JObject [(js ''favicon'', JString (js ''f''))])]"

definition hit_b :: "int json" where
  "hit_b =
     JObject [(js ''url'', JString (js ''http://c.d'')), (js ''title'', JString (js ''B'')),
              (js ''meta_url'', JObject [(js ''favicon'', JString (js ''g''))]),
              (js ''extra_snippets'', JArray [JString (js ''s'')])]"

definition response_two :: "int json" where
  "response_two = JObject [(js ''web'', JObject [(js ''results'', JArray [hit_a, hit_b])])]"

definition response_bad :: "int json" where
  "response_bad = JObject [(js ''web'', JObject [(js ''results'', JArray [hit_a, JObject []])])]"

definition page :: scrape_response where
  "page = \<lparr>success = True, markdown = Some (js ''see [t](http://x.y) now''), error = None\<rparr>"

definition web_two :: "int web" where
  "web_two =
     \<lparr>brave = (\<lambda>q. Json response_two),
      firecrawl = (\<lambda>i u p. if i = 0 \<and> p = scrape_options then Returned page else Threw)\<rparr>"

definition web_down :: "int web" where
  "web_down = \<lparr>brave = (\<lambda>q. Json response_two), firecrawl = (\<lambda>i u p. Threw)\<rparr>"

definition web_bad :: "int web" where
  "web_bad = \<lparr>brave = (\<lambda>q. Json response_bad), firecrawl = (\<lambda>i u p. Returned page)\<rparr>"

definition sr_a :: SearchResult where
  "sr_a = \<lparr>sr_title = js ''A'', sr_url = js ''http://a.b'', favicon = js ''f'',
           extraSnippets = [], thumbnail = None\<rparr>"

definition sr_b :: SearchResult where
  "sr_b = \<lparr>sr_title = js ''B'', sr_url = js ''http://c.d'', favicon = js ''g'',
           extraSnippets = [js ''s''], thumbnail = None\<rparr>"

definition finding_a :: finding where
  "finding_a = \<lparr>title = js ''A'', link = js ''http://a.b'', content = js ''see t now''\<rparr>"

section \<open>Literals, the scheme and the scan\<close>


lemma lit_Some_iff: "lit p s = Some r \<longleftrightarrow> s = p @ r"
  by (induction p s rule: lit.induct) auto

lemma lit_None_iff: "lit p s = None \<longleftrightarrow> \<not> prefix p s"
  by (induction p s rule: lit.induct) auto

lemma lit_append [simp]: "lit p (p @ r) = Some r"
  by (simp add: lit_Some_iff)

lemma scheme_Some_iff:
  "scheme s = Some r \<longleftrightarrow> s = js ''http://'' @ r \<or> s = js ''https://'' @ r"
proof -
  have a: "js ''http://'' = js ''http'' @ js ''://''" "js ''https://'' = js ''http'' @ js ''s'' @ js ''://''"
    by (simp_all add: js_def)
  have b: "\<And>t u. js ''s'' @ t \<noteq> js ''://'' @ u"
    by (simp add: js_def ch_def)
  have c: "\<And>t. lit (js ''s'') (js ''://'' @ t) = None"
    by (simp add: js_def ch_def)
  show ?thesis
    unfolding scheme_def a
    by (auto simp: lit_Some_iff b c split: option.splits)
qed

lemma replace_all_no_match: "\<not> has_match m prev s \<Longrightarrow> replace_all m prev s = s"
  by (induction m prev s rule: replace_all.induct) (auto split: option.splits)

section \<open>No URL is left by the last replacement\<close>


lemma url_at_iff:
  "url_at s \<longleftrightarrow> (\<exists>c t. \<not> is_space c \<and> (s = js ''http://'' @ c # t \<or> s = js ''https://'' @ c # t))"
proof
  assume "url_at s"
  then obtain r where r: "scheme s = Some r" "takeWhile (\<lambda>c. \<not> is_space c) r \<noteq> []"
    by (auto simp: url_at_def bare_re_def split: option.splits if_splits)
  then obtain c t where "r = c # t" "\<not> is_space c"
    by (cases r) (auto split: if_splits)
  with r show "\<exists>c t. \<not> is_space c \<and> (s = js ''http://'' @ c # t \<or> s = js ''https://'' @ c # t)"
    by (auto simp: scheme_Some_iff)
next
  assume "\<exists>c t. \<not> is_space c \<and> (s = js ''http://'' @ c # t \<or> s = js ''https://'' @ c # t)"
  then obtain c t where ct: "\<not> is_space c" "scheme s = Some (c # t)"
    by (auto simp: scheme_Some_iff)
  then show "url_at s"
    by (simp add: url_at_def bare_re_def)
qed

lemma url_at_append: "url_at p \<Longrightarrow> url_at (p @ q)"
proof -
  assume "url_at p"
  then obtain c t where ct: "\<not> is_space c" "p = js ''http://'' @ c # t \<or> p = js ''https://'' @ c # t"
    by (auto simp: url_at_iff)
  then have "p @ q = js ''http://'' @ c # (t @ q) \<or> p @ q = js ''https://'' @ c # (t @ q)"
    by auto
  with ct(1) show ?thesis unfolding url_at_iff by blast
qed

lemma no_space_scheme:
  "\<forall>c \<in> set (js ''http://''). \<not> is_space c" "\<forall>c \<in> set (js ''https://''). \<not> is_space c"
  by (simp_all add: js_def ch_def is_space_def is_line_terminator_def)

lemma url_at_first_word: "url_at s \<Longrightarrow> url_at (takeWhile (\<lambda>c. \<not> is_space c) s)"
proof -
  assume "url_at s"
  then obtain c t where ct: "\<not> is_space c" "s = js ''http://'' @ c # t \<or> s = js ''https://'' @ c # t"
    by (auto simp: url_at_iff)
  then have "takeWhile (\<lambda>c. \<not> is_space c) s = js ''http://'' @ c # takeWhile (\<lambda>c. \<not> is_space c) t
      \<or> takeWhile (\<lambda>c. \<not> is_space c) s = js ''https://'' @ c # takeWhile (\<lambda>c. \<not> is_space c) t"
    using no_space_scheme by (auto simp: takeWhile_append2)
  with ct(1) show ?thesis unfolding url_at_iff by blast
qed

lemma bare_re_rest:
  "bare_re s = Some r \<Longrightarrow> length r < length s \<and> (case r of [] \<Rightarrow> True | c # _ \<Rightarrow> is_space c)"
proof -
  assume a: "bare_re s = Some r"
  then obtain r0 where r0: "scheme s = Some r0" "r = dropWhile (\<lambda>c. \<not> is_space c) r0"
    by (auto simp: bare_re_def split: option.splits if_splits)
  have "length r \<le> length r0" using r0 by (simp add: length_dropWhile_le)
  moreover have "length r0 < length s" using r0 by (auto simp: scheme_Some_iff js_def)
  moreover have "case r of [] \<Rightarrow> True | c # _ \<Rightarrow> is_space c"
    using r0(2) by (auto split: list.splits simp: dropWhile_eq_Cons_conv)
  ultimately show ?thesis by simp
qed

lemma first_word_bare:
  "prefix (takeWhile (\<lambda>c. \<not> is_space c) (replace_all bare_pattern prev s))
          (takeWhile (\<lambda>c. \<not> is_space c) s)"
proof (induction bare_pattern prev s rule: replace_all.induct)
  case (1 prev)
  then show ?case by (simp add: bare_pattern_def bare_re_def scheme_def js_def split: option.splits)
next
  case (2 prev c cs)
  show ?case
  proof (cases "bare_re (c # cs)")
    case None
    with 2 show ?thesis by (simp add: bare_pattern_def)
  next
    case (Some r)
    note br = bare_re_rest[OF Some]
    from Some br 2(2)[of "([], r)" "[]" r]
    have ih: "prefix (takeWhile (\<lambda>c. \<not> is_space c) (replace_all bare_pattern (Some ((c # cs) ! (length cs - length r))) r))
          (takeWhile (\<lambda>c. \<not> is_space c) r)"
      by (simp add: bare_pattern_def)
    have "takeWhile (\<lambda>c. \<not> is_space c) r = []" using br by (cases r) auto
    with ih Some br show ?thesis by (simp add: bare_pattern_def)
  qed
qed

lemma has_match_bare_iff: "has_match bare_pattern prev s \<longleftrightarrow> (\<exists>p q. s = p @ q \<and> url_at q)"
proof (induction s arbitrary: prev)
  case Nil
  then show ?case by (simp add: bare_pattern_def url_at_def split: option.splits)
next
  case (Cons c cs)
  show ?case
  proof
    assume "has_match bare_pattern prev (c # cs)"
    then consider "url_at (c # cs)" | "has_match bare_pattern (Some c) cs"
      by (auto simp: bare_pattern_def url_at_def split: option.splits)
    then show "\<exists>p q. c # cs = p @ q \<and> url_at q"
    proof cases
      case 1 then show ?thesis by (rule_tac x = "[]" in exI) auto
    next
      case 2
      then obtain p q where "cs = p @ q" "url_at q" using Cons by blast
      then show ?thesis by (rule_tac x = "c # p" in exI) auto
    qed
  next
    assume "\<exists>p q. c # cs = p @ q \<and> url_at q"
    then obtain p q where pq: "c # cs = p @ q" "url_at q" by blast
    show "has_match bare_pattern prev (c # cs)"
    proof (cases p)
      case Nil
      with pq show ?thesis by (auto simp: bare_pattern_def url_at_def split: option.splits)
    next
      case (Cons a p')
      with pq have "cs = p' @ q" by simp
      with pq Cons.IH show ?thesis by auto
    qed
  qed
qed

lemma replace_bare_no_url: "\<not> has_match bare_pattern prev' (replace_all bare_pattern prev s)"
proof (induction bare_pattern prev s arbitrary: prev' rule: replace_all.induct)
  case (1 prev)
  then show ?case by (simp add: bare_pattern_def bare_re_def scheme_def js_def split: option.splits)
next
  case (2 prev c cs)
  show ?case
  proof (cases "bare_re (c # cs)")
    case None
    have ih: "\<And>p. \<not> has_match bare_pattern p (replace_all bare_pattern (Some c) cs)"
      using 2(1) None by (simp add: bare_pattern_def)
    have "\<not> url_at (c # replace_all bare_pattern (Some c) cs)"
    proof
      assume "url_at (c # replace_all bare_pattern (Some c) cs)"
      then have "url_at (takeWhile (\<lambda>c. \<not> is_space c) (c # replace_all bare_pattern (Some c) cs))"
        by (rule url_at_first_word)
      moreover have "prefix (takeWhile (\<lambda>c. \<not> is_space c) (c # replace_all bare_pattern (Some c) cs))
          (takeWhile (\<lambda>c. \<not> is_space c) (c # cs))"
        using first_word_bare[of "Some c" cs] by simp
      ultimately have "url_at (takeWhile (\<lambda>c. \<not> is_space c) (c # cs))"
        unfolding prefix_def using url_at_append by metis
      then have "url_at (takeWhile (\<lambda>c. \<not> is_space c) (c # cs) @ dropWhile (\<lambda>c. \<not> is_space c) (c # cs))"
        by (rule url_at_append)
      then have "url_at (c # cs)" by (simp only: takeWhile_dropWhile_id)
      then show False using None by (simp add: url_at_def)
    qed
    with ih None show ?thesis by (simp add: bare_pattern_def url_at_def)
  next
    case (Some r)
    note br = bare_re_rest[OF Some]
    from Some br 2(2)[of "([], r)" "[]" r]
    show ?thesis by (simp add: bare_pattern_def)
  qed
qed

section \<open>trim\<close>


lemma trim_decomp:
  "\<exists>a b. s = a @ trim s @ b \<and> (\<forall>c \<in> set a. is_space c) \<and> (\<forall>c \<in> set b. is_space c)"
proof -
  let ?d = "dropWhile is_space s"
  have 1: "s = takeWhile is_space s @ ?d" by simp
  have "rev (takeWhile is_space (rev ?d) @ dropWhile is_space (rev ?d)) = ?d" by simp
  then have "rev (dropWhile is_space (rev ?d)) @ rev (takeWhile is_space (rev ?d)) = ?d"
    by (simp only: rev_append)
  then have 2: "?d = trim s @ rev (takeWhile is_space (rev ?d))"
    by (simp only: trim_def)
  have 3: "\<forall>c \<in> set (takeWhile is_space s). is_space c"
    by (auto dest: set_takeWhileD)
  have 4: "\<forall>c \<in> set (rev (takeWhile is_space (rev ?d))). is_space c"
    by (auto dest: set_takeWhileD)
  from 1 2 have "s = takeWhile is_space s @ trim s @ rev (takeWhile is_space (rev ?d))"
    by metis
  with 3 4 show ?thesis by blast
qed

lemma trim_last: "trim s \<noteq> [] \<Longrightarrow> \<not> is_space (last (trim s))"
  using hd_dropWhile[of is_space "rev (dropWhile is_space s)"]
  by (simp add: trim_def last_rev)

lemma trim_hd: "trim s \<noteq> [] \<Longrightarrow> \<not> is_space (hd (trim s))"
proof -
  assume ne: "trim s \<noteq> []"
  let ?d = "dropWhile is_space s"
  have "rev (takeWhile is_space (rev ?d) @ dropWhile is_space (rev ?d)) = ?d" by simp
  then have "rev (dropWhile is_space (rev ?d)) @ rev (takeWhile is_space (rev ?d)) = ?d"
    by (simp only: rev_append)
  then have 2: "?d = trim s @ rev (takeWhile is_space (rev ?d))"
    by (simp only: trim_def)
  with ne have "?d \<noteq> []" by (metis append_is_Nil_conv)
  then have "\<not> is_space (hd ?d)" by (rule hd_dropWhile)
  moreover have "hd ?d = hd (trim s)" using 2 ne by (metis hd_append2)
  ultimately show ?thesis by simp
qed

lemma trim_id: "s = [] \<or> (\<not> is_space (hd s) \<and> \<not> is_space (last s)) \<Longrightarrow> trim s = s"
proof (cases s)
  case Nil then show ?thesis by (simp add: trim_def)
next
  case (Cons c cs)
  assume "s = [] \<or> (\<not> is_space (hd s) \<and> \<not> is_space (last s))"
  with Cons have a: "\<not> is_space c" "\<not> is_space (last s)" by auto
  have "dropWhile is_space s = s" using Cons a by simp
  moreover have "dropWhile is_space (rev s) = rev s"
    using Cons a(2) by (cases "rev s") (auto simp: hd_rev[symmetric] simp del: hd_rev)
  ultimately show ?thesis by (simp add: trim_def)
qed

lemma strip_no_url_at: "stripUrlsFromMarkdown x = p @ q \<Longrightarrow> \<not> url_at q"
proof
  assume eq: "stripUrlsFromMarkdown x = p @ q" and u: "url_at q"
  obtain z where z: "stripUrlsFromMarkdown x = trim (replace_all bare_pattern None z)"
    by (simp add: stripUrlsFromMarkdown_def Let_def)
  obtain a b where ab: "replace_all bare_pattern None z = a @ trim (replace_all bare_pattern None z) @ b"
    using trim_decomp by blast
  with z eq have "replace_all bare_pattern None z = (a @ p) @ (q @ b)"
    by (metis append.assoc)
  moreover have "url_at (q @ b)" using u by (rule url_at_append)
  ultimately have "has_match bare_pattern None (replace_all bare_pattern None z)"
    unfolding has_match_bare_iff by blast
  then show False using replace_bare_no_url by blast
qed

text \<open>The definitions that evaluating the sanitizer on a given string unfolds.\<close>

lemmas ev = js_def ch_def stripUrlsFromMarkdown_def trim_def is_space_def is_line_terminator_def
  image_pattern_def link_pattern_def ref_pattern_def angle_pattern_def bare_pattern_def
  image_re_def link_re_def ref_re_def angle_re_def bare_re_def scheme_def title_part_def url_char_def
  at_line_start_def at_line_end_def

section \<open>What a match contains\<close>

lemma scheme_prefix: "scheme q = Some r \<Longrightarrow> prefix (js ''http://'') q \<or> prefix (js ''https://'') q"
  by (auto simp: scheme_Some_iff)

lemma scheme_url_at: "scheme q = Some (c # r) \<Longrightarrow> \<not> is_space c \<Longrightarrow> url_at q"
  by (simp add: url_at_def bare_re_def)

lemma link_re_SomeD:
  assumes "link_re s = Some (t, r)"
  shows "\<exists>q. s = js ''['' @ t @ js '']('' @ q \<and> url_at q
           \<and> (prefix (js ''http://'') q \<or> prefix (js ''https://'') q)"
proof -
  from assms obtain r0 r1 r2 where
    r0: "s = js ''['' @ r0" and
    r1: "dropWhile (\<lambda>c. c \<noteq> ch CHR '']'') r0 = js '']('' @ r1" and
    r2: "scheme r1 = Some r2" and
    ne: "takeWhile url_char r2 \<noteq> []" and
    t: "t = takeWhile (\<lambda>c. c \<noteq> ch CHR '']'') r0"
    by (auto simp: link_re_def lit_Some_iff split: option.splits if_splits)
  from ne obtain c r3 where c: "r2 = c # r3" "url_char c"
    by (cases r2) (auto split: if_splits)
  then have "url_at r1" using r2 by (auto intro: scheme_url_at simp: url_char_def)
  moreover have "r0 = t @ js '']('' @ r1"
    using r1 t takeWhile_dropWhile_id[of "\<lambda>c. c \<noteq> ch CHR '']''" r0] by simp
  ultimately show ?thesis using r0 scheme_prefix[OF r2] by auto
qed

lemma image_re_SomeD:
  assumes "image_re s = Some (t, r)"
  shows "\<exists>q. s = js ''!['' @ t @ js '']('' @ q \<and> url_at q
           \<and> (prefix (js ''http://'') q \<or> prefix (js ''https://'') q)"
proof -
  from assms obtain s' where s': "s = js ''!'' @ s'" "link_re s' = Some (t, r)"
    by (auto simp: image_re_def lit_Some_iff split: option.splits)
  from link_re_SomeD[OF s'(2)] s'(1) show ?thesis by (auto simp: js_def)
qed

lemma ref_re_SomeD:
  assumes "ref_re prev s = Some r"
  shows "\<exists>p q. s = p @ q \<and> url_at q"
proof -
  from assms obtain r0 r1 r2 where
    r0: "s = js ''['' @ r0" and
    r1: "dropWhile (\<lambda>c. c \<noteq> ch CHR '']'') r0 = js '']:'' @ r1" and
    r2: "scheme (dropWhile is_space r1) = Some r2" and
    ne: "takeWhile (\<lambda>c. \<not> is_space c) r2 \<noteq> []"
    by (auto simp: ref_re_def lit_Some_iff split: option.splits if_splits)
  from ne obtain c r3 where c: "r2 = c # r3" "\<not> is_space c"
    by (cases r2) (auto split: if_splits)
  then have u: "url_at (dropWhile is_space r1)" using r2 by (auto intro: scheme_url_at)
  have "r0 = takeWhile (\<lambda>c. c \<noteq> ch CHR '']'') r0 @ js '']:'' @ r1"
    using r1 takeWhile_dropWhile_id[of "\<lambda>c. c \<noteq> ch CHR '']''" r0] by simp
  then have "s = (js ''['' @ takeWhile (\<lambda>c. c \<noteq> ch CHR '']'') r0 @ js '']:'' @ takeWhile is_space r1)
       @ dropWhile is_space r1"
    using r0 by simp
  with u show ?thesis by blast
qed

lemma angle_re_SomeD:
  assumes "angle_re s = Some r"
  shows "\<exists>q. s = js ''<'' @ q \<and> (prefix (js ''http://'') q \<or> prefix (js ''https://'') q)"
  using assms
  by (auto simp: angle_re_def lit_Some_iff split: option.splits if_splits dest: scheme_prefix)

lemma bare_re_SomeD:
  assumes "bare_re s = Some r"
  shows "prefix (js ''http://'') s \<or> prefix (js ''https://'') s"
  using assms
  by (auto simp: bare_re_def split: option.splits if_splits dest: scheme_prefix)

lemma has_match_suffix:
  "has_match m prev s \<Longrightarrow> \<exists>p q prev'. s = p @ q \<and> m prev' q \<noteq> None"
proof (induction s arbitrary: prev)
  case Nil
  then show ?case by auto
next
  case (Cons c cs)
  show ?case
  proof (cases "m prev (c # cs) = None")
    case False
    then show ?thesis by (metis append_Nil)
  next
    case True
    with Cons.prems have "has_match m (Some c) cs" by simp
    from Cons.IH[OF this] obtain p q prev' where "cs = p @ q" "m prev' q \<noteq> None" by blast
    then have "c # cs = (c # p) @ q" by simp
    then show ?thesis using \<open>m prev' q \<noteq> None\<close> by blast
  qed
qed

lemma no_url_no_match:
  assumes "\<not> has_match bare_pattern None s"
  shows "\<not> has_match image_pattern prev s" "\<not> has_match link_pattern prev s"
    "\<not> has_match ref_pattern prev s" "\<not> has_match bare_pattern prev s"
proof -
  have nu: "\<And>p q. s = p @ q \<Longrightarrow> \<not> url_at q"
    using assms unfolding has_match_bare_iff by blast
  have k: "\<And>p q p' q'. s = p @ q \<Longrightarrow> q = p' @ q' \<Longrightarrow> \<not> url_at q'"
  proof -
    fix p q p' q' :: jsstring
    assume "s = p @ q" "q = p' @ q'"
    then have "s = (p @ p') @ q'" by simp
    then show "\<not> url_at q'" by (rule nu)
  qed
  show "\<not> has_match image_pattern prev s"
  proof
    assume "has_match image_pattern prev s"
    from has_match_suffix[OF this] obtain p q t r where pq: "s = p @ q" "image_re q = Some (t, r)"
      by (auto simp: image_pattern_def)
    from image_re_SomeD[OF pq(2)] obtain q' where q': "q = (js ''!['' @ t @ js '']('') @ q'" "url_at q'"
      by auto
    from k[OF pq(1) q'(1)] q'(2) show False by simp
  qed
  show "\<not> has_match link_pattern prev s"
  proof
    assume "has_match link_pattern prev s"
    from has_match_suffix[OF this] obtain p q t r where pq: "s = p @ q" "link_re q = Some (t, r)"
      by (auto simp: link_pattern_def)
    from link_re_SomeD[OF pq(2)] obtain q' where q': "q = (js ''['' @ t @ js '']('') @ q'" "url_at q'"
      by auto
    from k[OF pq(1) q'(1)] q'(2) show False by simp
  qed
  show "\<not> has_match ref_pattern prev s"
  proof
    assume "has_match ref_pattern prev s"
    from has_match_suffix[OF this] obtain p q prev' r where pq: "s = p @ q" "ref_re prev' q = Some r"
      by (auto simp: ref_pattern_def split: option.splits)
    from ref_re_SomeD[OF pq(2)] obtain p' q' where q': "q = p' @ q'" "url_at q'"
      by auto
    from k[OF pq(1) q'(1)] q'(2) show False by simp
  qed
  show "\<not> has_match bare_pattern prev s"
    using assms unfolding has_match_bare_iff .
qed

lemma occurs_iff: "occurs p s \<longleftrightarrow> (\<exists>a b. s = a @ p @ b)"
proof (induction s)
  case Nil
  then show ?case by auto
next
  case (Cons c cs)
  show ?case
  proof
    assume "occurs p (c # cs)"
    then consider "prefix p (c # cs)" | "occurs p cs" by auto
    then show "\<exists>a b. c # cs = a @ p @ b"
    proof cases
      case 1
      then obtain b where "c # cs = p @ b" by (auto simp: prefix_def)
      then have "c # cs = [] @ p @ b" by simp
      then show ?thesis by blast
    next
      case 2
      with Cons obtain a b where "cs = a @ p @ b" by blast
      then have "c # cs = (c # a) @ p @ b" by simp
      then show ?thesis by blast
    qed
  next
    assume "\<exists>a b. c # cs = a @ p @ b"
    then obtain a b where ab: "c # cs = a @ p @ b" by blast
    show "occurs p (c # cs)"
    proof (cases a)
      case Nil
      with ab have "prefix p (c # cs)" by (simp add: prefix_def)
      then show ?thesis by simp
    next
      case (Cons x a')
      with ab have "cs = a' @ p @ b" by simp
      with Cons.IH show ?thesis by auto
    qed
  qed
qed

lemma no_scheme_no_match:
  assumes "\<not> occurs (js ''http://'') s" "\<not> occurs (js ''https://'') s"
  shows "\<not> has_match image_pattern prev s" "\<not> has_match link_pattern prev s"
    "\<not> has_match ref_pattern prev s" "\<not> has_match angle_pattern prev s"
    "\<not> has_match bare_pattern prev s"
proof -
  have k: "\<And>p q. s = p @ q \<Longrightarrow> \<not> prefix (js ''http://'') q \<and> \<not> prefix (js ''https://'') q"
  proof -
    fix p q assume "s = p @ q"
    then have "\<And>b. q = js ''http://'' @ b \<Longrightarrow> s = p @ js ''http://'' @ b"
        "\<And>b. q = js ''https://'' @ b \<Longrightarrow> s = p @ js ''https://'' @ b" by auto
    with assms show "\<not> prefix (js ''http://'') q \<and> \<not> prefix (js ''https://'') q"
      unfolding occurs_iff prefix_def by blast
  qed
  have nb: "\<And>prev. \<not> has_match bare_pattern prev s"
  proof
    fix prev assume "has_match bare_pattern prev s"
    from has_match_suffix[OF this] obtain p q r where "s = p @ q" "bare_re q = Some r"
      by (auto simp: bare_pattern_def split: option.splits)
    from bare_re_SomeD[OF this(2)] k[OF this(1)] show False by simp
  qed
  from no_url_no_match[OF nb[of None]]
  show "\<not> has_match image_pattern prev s" "\<not> has_match link_pattern prev s"
    "\<not> has_match ref_pattern prev s" "\<not> has_match bare_pattern prev s"
    by auto
  show "\<not> has_match angle_pattern prev s"
  proof
    assume "has_match angle_pattern prev s"
    from has_match_suffix[OF this] obtain p q r where pq: "s = p @ q" "angle_re q = Some r"
      by (auto simp: angle_pattern_def split: option.splits)
    from angle_re_SomeD[OF pq(2)] obtain q' where q': "q = js ''<'' @ q'"
      "prefix (js ''http://'') q' \<or> prefix (js ''https://'') q'" by blast
    from pq q' have "s = (p @ js ''<'') @ q'" by simp
    from k[OF this] q'(2) show False by simp
  qed
qed

lemma strip_no_scheme:
  assumes "\<not> occurs (js ''http://'') x" "\<not> occurs (js ''https://'') x"
  shows "stripUrlsFromMarkdown x = trim x"
  using no_scheme_no_match[OF assms]
  by (simp add: stripUrlsFromMarkdown_def Let_def replace_all_no_match)

section \<open>Strings on which the sanitizer has nothing left to do\<close>

lemma strip_hd: "stripUrlsFromMarkdown x \<noteq> [] \<Longrightarrow> \<not> is_space (hd (stripUrlsFromMarkdown x))"
  by (simp add: stripUrlsFromMarkdown_def Let_def trim_hd)

lemma strip_last: "stripUrlsFromMarkdown x \<noteq> [] \<Longrightarrow> \<not> is_space (last (stripUrlsFromMarkdown x))"
  by (simp add: stripUrlsFromMarkdown_def Let_def trim_last)

lemma not_ends_with_space_last: "\<not> ends_with_space s \<Longrightarrow> s \<noteq> [] \<Longrightarrow> \<not> is_space (last s)"
  by (cases s rule: rev_cases) (auto simp: ends_with_space_def)

lemma strip_settled:
  assumes nb: "\<not> has_match bare_pattern None y"
    and na: "\<not> has_match angle_pattern None y"
  shows "stripUrlsFromMarkdown y = trim y"
  using no_url_no_match[OF nb] na
  by (simp add: stripUrlsFromMarkdown_def Let_def replace_all_no_match)

lemma prefix_of_strip_no_url:
  assumes "stripUrlsFromMarkdown x = y @ y'"
  shows "\<not> has_match bare_pattern None y"
proof
  assume "has_match bare_pattern None y"
  then obtain p q where pq: "y = p @ q" "url_at q" unfolding has_match_bare_iff by blast
  then have "stripUrlsFromMarkdown x = p @ (q @ y')" using assms by simp
  from strip_no_url_at[OF this] url_at_append[OF pq(2)] show False by simp
qed

section \<open>The search phase and the fan-out\<close>

lemma those_map_Some_iff:
  "those (map f xs) = Some ys \<longleftrightarrow> (\<forall>x \<in> set xs. f x \<noteq> None) \<and> ys = map (\<lambda>x. the (f x)) xs"
  by (induction xs arbitrary: ys) (auto split: option.splits)

lemma those_map_None_iff: "those (map f xs) = None \<longleftrightarrow> (\<exists>x \<in> set xs. f x = None)"
  by (induction xs) (auto split: option.splits)

lemma search_phase_Inr_iff:
  "search_phase w q = Inr hs \<longleftrightarrow>
     (\<exists>j es. brave w q = Json j \<and> web_results j = Some es \<and>
        (\<forall>e \<in> set es. parse_brave_result e \<noteq> None) \<and>
        hs = map (\<lambda>e. to_search_result (the (parse_brave_result e))) es)"
  by (auto simp: search_phase_def parse_response_def schema_parse_def those_map_Some_iff
      those_map_None_iff Let_def comp_def split: http_result.splits option.splits)

lemma searchOnWeb_Inr_iff:
  "(\<exists>rs. searchOnWeb w q = Inr rs) \<longleftrightarrow> (\<exists>hs. search_phase w q = Inr hs)"
  by (auto simp: searchOnWeb_def split: sum.splits)

lemma searchOnWeb_Inl_iff: "searchOnWeb w q = Inl e \<longleftrightarrow> search_phase w q = Inl e"
  by (auto simp: searchOnWeb_def split: sum.splits)

lemma sanitize_Nil: "sanitize [] = []"
  by (simp add: sanitize_def ev)

lemma content_scrapeSearchResult:
  "content (scrapeSearchResult f r) =
     (case scraped_content (f (sr_url r) scrape_options) of None \<Rightarrow> [] | Some c \<Rightarrow> c)"
  by (simp add: scrapeSearchResult_def scraped_content_def sanitize_Nil Let_def
      split: scrape_outcome.splits option.splits)

lemma scraped_content_nonempty: "scraped_content out = Some c \<Longrightarrow> c \<noteq> []"
  by (auto simp: scraped_content_def split: scrape_outcome.splits option.splits if_splits)

lemma scrapeSearchResult_finding_of:
  "finding_of r (f (sr_url r) scrape_options) = Some x \<Longrightarrow> scrapeSearchResult f r = x"
  using content_scrapeSearchResult[of f r]
  by (auto simp: finding_of_def scrapeSearchResult_def Let_def split: option.splits)

lemma finding_of_None_iff:
  "finding_of r (f (sr_url r) scrape_options) = None \<longleftrightarrow> content (scrapeSearchResult f r) = []"
  using content_scrapeSearchResult[of f r]
  by (auto simp: finding_of_def split: option.splits dest: scraped_content_nonempty)

lemma enumerate_nth: "enumerate 0 xs = map (\<lambda>i. (i, xs ! i)) [0..<length xs]"
  by (rule nth_equalityI) (auto simp: nth_enumerate_eq)

lemma fan_out_eq:
  "fan_out w hs =
     List.map_filter (\<lambda>i. finding_of (hs ! i) (firecrawl w i (sr_url (hs ! i)) scrape_options))
       [0..<length hs]"
proof -
  let ?h = "\<lambda>i. scrapeSearchResult (firecrawl w i) (hs ! i)"
  let ?f = "\<lambda>i. finding_of (hs ! i) (firecrawl w i (sr_url (hs ! i)) scrape_options)"
  have "fan_out w hs = filter (\<lambda>r. content r \<noteq> []) (map ?h [0..<length hs])"
    by (simp add: fan_out_def Let_def is_fulfilled_def enumerate_nth comp_def)
  also have "\<dots> = map ?h (filter (\<lambda>i. content (?h i) \<noteq> []) [0..<length hs])"
    by (simp add: filter_map comp_def)
  also have "\<dots> = map ?h (filter (\<lambda>i. ?f i \<noteq> None) [0..<length hs])"
    by (simp add: finding_of_None_iff)
  also have "\<dots> = map (\<lambda>i. the (?f i)) (filter (\<lambda>i. ?f i \<noteq> None) [0..<length hs])"
    by (rule map_cong) (auto dest: scrapeSearchResult_finding_of)
  finally show ?thesis by (simp add: List.map_filter_def comp_def)
qed

lemma fan_out_all_failed:
  "(\<forall>i < length hs. scraped_content (firecrawl w i (sr_url (hs ! i)) scrape_options) = None)
     \<Longrightarrow> fan_out w hs = []"
  by (simp add: fan_out_eq List.map_filter_def finding_of_def filter_empty_conv)

lemma map_filter_mem: "x \<in> set (List.map_filter f xs) \<longleftrightarrow> (\<exists>y \<in> set xs. f y = Some x)"
  by (induction xs) (auto simp: List.map_filter_simps split: option.splits)

lemma scraped_content_SomeD:
  "scraped_content out = Some c \<Longrightarrow>
     \<exists>resp. out = Returned resp \<and> success resp \<and> \<not> truthy (error resp) \<and>
       c = sanitize (case markdown resp of None \<Rightarrow> [] | Some m \<Rightarrow> m)"
  by (auto simp: scraped_content_def split: scrape_outcome.splits option.splits if_splits)

lemma scrapeSearchResult_cong:
  "f (sr_url r) scrape_options = g (sr_url r) scrape_options \<Longrightarrow>
     scrapeSearchResult f r = scrapeSearchResult g r"
  by (simp add: scrapeSearchResult_def)

lemma fan_out_cong:
  assumes "\<forall>i u. fc i u scrape_options = firecrawl w i u scrape_options"
  shows "fan_out (w\<lparr>firecrawl := fc\<rparr>) hs = fan_out w hs"
  using assms by (simp add: fan_out_eq)

lemma search_phase_firecrawl: "search_phase (w\<lparr>firecrawl := fc\<rparr>) q = search_phase w q"
  by (simp add: search_phase_def)

section \<open>The sample inputs, evaluated\<close>

lemmas ev_json = get_prop_def z_string_def z_string_array_default_def z_meta_url_def z_thumbnail_def
  parse_brave_result_def web_results_def parse_response_def to_search_result_def schema_parse_def
  search_phase_def hit_a_def hit_b_def response_two_def response_bad_def sr_a_def sr_b_def

lemma parse_hit_a: "parse_brave_result hit_a = Some \<lparr>br_url = js ''http://a.b'', br_title = js ''A'',
    br_meta_url_favicon = js ''f'', br_extra_snippets = [], br_thumbnail_original = None\<rparr>"
  by (simp add: ev_json js_def ch_def)

lemma parse_hit_b: "parse_brave_result hit_b = Some \<lparr>br_url = js ''http://c.d'', br_title = js ''B'',
    br_meta_url_favicon = js ''g'', br_extra_snippets = [js ''s''], br_thumbnail_original = None\<rparr>"
  by (simp add: ev_json js_def ch_def)

lemma parse_empty_object: "parse_brave_result (JObject []) = None"
  by (simp add: ev_json)

lemma web_results_two: "web_results response_two = Some [hit_a, hit_b]"
  by (simp add: web_results_def get_prop_def response_two_def js_def ch_def)

lemma web_results_bad: "web_results response_bad = Some [hit_a, JObject []]"
  by (simp add: web_results_def get_prop_def response_bad_def js_def ch_def)

lemma search_phase_two: "search_phase web_two q = Inr [sr_a, sr_b]"
  by (simp add: search_phase_def parse_response_def web_results_two parse_hit_a parse_hit_b
      schema_parse_def to_search_result_def sr_a_def sr_b_def web_two_def)

lemma search_phase_down: "search_phase web_down q = Inr [sr_a, sr_b]"
  by (simp add: search_phase_def parse_response_def web_results_two parse_hit_a parse_hit_b
      schema_parse_def to_search_result_def sr_a_def sr_b_def web_down_def)

lemma sanitize_page: "sanitize (js ''see [t](http://x.y) now'') = js ''see t now''"
  by (simp add: sanitize_def ev)

lemma scraped_content_page: "scraped_content (Returned page) = Some (js ''see t now'')"
  by (simp add: scraped_content_def page_def truthy_def sanitize_page) (simp add: js_def)

lemma upt_two: "[0..<length [x, y]] = [0, Suc 0]"
  by (simp add: upt_rec)

lemma fan_out_two: "fan_out web_two [sr_a, sr_b] = [finding_a]"
proof -
  have 0: "firecrawl web_two 0 u scrape_options = Returned page" for u
    by (simp add: web_two_def)
  have 1: "firecrawl web_two (Suc 0) u scrape_options = Threw" for u
    by (simp add: web_two_def)
  have f0: "finding_of sr_a (Returned page) = Some finding_a"
    by (simp add: finding_of_def scraped_content_page finding_a_def sr_a_def)
  have f1: "finding_of sr_b Threw = None"
    by (simp add: finding_of_def scraped_content_def)
  show ?thesis
    by (simp add: fan_out_eq List.map_filter_def upt_two 0 1 f0 f1)
qed

lemma searchOnWeb_two: "searchOnWeb web_two q = Inr [finding_a]"
  by (simp add: searchOnWeb_def search_phase_two fan_out_two)

section \<open>The status type\<close>

lemma status_UNIV: "(UNIV :: status set) = {Questions, Pending, Processing, Completed}"
proof -
  have "x \<in> {Questions, Pending, Processing, Completed}" for x :: status
    by (cases x) simp_all
  then show ?thesis by blast
qed

lemma reaches_rank: "reaches s t \<Longrightarrow> status_rank s \<le> status_rank t"
proof (induction rule: reaches.induct)
  case (reaches_refl s)
  show ?case by simp
next
  case (reaches_step s t u)
  from reaches_step.hyps(2) have "status_rank u = Suc (status_rank t)"
    by (cases t) auto
  with reaches_step.IH show ?case by simp
qed

section \<open>Scanning past text and replacing one construct\<close>

lemma lit_Cons_ne: "p \<noteq> c \<Longrightarrow> lit (p # ps) (c # cs) = None"
  by simp

lemma scheme_Nil: "scheme [] = None"
  by (simp add: scheme_def js_def)

lemma scheme_start: "c \<noteq> ch CHR ''h'' \<Longrightarrow> scheme (c # cs) = None"
  by (simp add: scheme_def js_def)

lemma image_start: "image_pattern prev [] = None" "c \<noteq> ch CHR ''!'' \<Longrightarrow> image_pattern prev (c # cs) = None"
  by (simp_all add: image_pattern_def image_re_def js_def)

lemma link_start: "link_pattern prev [] = None" "c \<noteq> ch CHR ''['' \<Longrightarrow> link_pattern prev (c # cs) = None"
  by (simp_all add: link_pattern_def link_re_def js_def)

lemma ref_start: "ref_pattern prev [] = None" "c \<noteq> ch CHR ''['' \<Longrightarrow> ref_pattern prev (c # cs) = None"
  by (simp_all add: ref_pattern_def ref_re_def js_def)

lemma angle_start: "angle_pattern prev [] = None" "c \<noteq> ch CHR ''<'' \<Longrightarrow> angle_pattern prev (c # cs) = None"
  by (simp_all add: angle_pattern_def angle_re_def js_def)

lemma bare_start: "bare_pattern prev [] = None" "c \<noteq> ch CHR ''h'' \<Longrightarrow> bare_pattern prev (c # cs) = None"
  by (simp_all add: bare_pattern_def bare_re_def scheme_Nil scheme_start)

lemma replace_all_skip:
  assumes "\<And>prev c cs. c \<in> set pre \<Longrightarrow> m prev (c # cs) = None"
  shows "replace_all m prev (pre @ s) =
           pre @ replace_all m (if pre = [] then prev else Some (last pre)) s"
  using assms
proof (induction pre arbitrary: prev)
  case Nil
  then show ?case by simp
next
  case (Cons a pre)
  have "m prev (a # pre @ s) = None" using Cons.prems by simp
  moreover have "replace_all m (Some a) (pre @ s) =
      pre @ replace_all m (if pre = [] then Some a else Some (last pre)) s"
    using Cons.IH[of "Some a"] Cons.prems by simp
  ultimately show ?case by simp
qed

lemma replace_all_none:
  assumes "\<And>prev. m prev [] = None"
    and "\<And>prev c cs. c \<in> set x \<Longrightarrow> m prev (c # cs) = None"
  shows "replace_all m prev x = x"
  using replace_all_skip[of x m prev "[]"] assms by simp

lemma replace_all_match:
  assumes "m prev (k @ rest) = Some (rep, rest)" and "k \<noteq> []"
  shows "\<exists>prev'. replace_all m prev (k @ rest) = rep @ replace_all m prev' rest"
proof -
  from assms(2) obtain c cs where k: "k = c # cs" by (cases k) auto
  with assms(1) show ?thesis by auto
qed

lemma scheme_append:
  "sch = js ''http://'' \<or> sch = js ''https://'' \<Longrightarrow> scheme (sch @ r) = Some r"
  by (auto simp: scheme_Some_iff)

lemma not_space_rparen: "\<not> is_space (ch CHR '')'')" "\<not> url_char (ch CHR '')'')"
  by (simp_all add: is_space_def is_line_terminator_def ch_def url_char_def)

lemma space_chars: "is_space 0x0A" "is_line_terminator 0x0A" "is_space (ch CHR '' '')"
  by (simp_all add: is_space_def is_line_terminator_def ch_def)

lemma link_re_match:
  assumes t: "\<forall>c \<in> set txt. c \<noteq> ch CHR '']''"
    and u: "u \<noteq> []" "\<forall>c \<in> set u. url_char c"
    and s: "sch = js ''http://'' \<or> sch = js ''https://''"
  shows "link_re (js ''['' @ txt @ js '']('' @ sch @ u @ js '')'' @ rest) = Some (txt, rest)"
proof -
  let ?r0 = "txt @ js '']('' @ sch @ u @ js '')'' @ rest"
  have tk: "takeWhile (\<lambda>c. c \<noteq> ch CHR '']'') ?r0 = txt"
    using t by (simp add: js_def)
  have dk: "dropWhile (\<lambda>c. c \<noteq> ch CHR '']'') ?r0 = js '']('' @ sch @ u @ js '')'' @ rest"
    using t by (simp add: js_def)
  have tu: "takeWhile url_char (u @ js '')'' @ rest) = u"
    using u(2) not_space_rparen by (simp add: js_def)
  have du: "dropWhile url_char (u @ js '')'' @ rest) = js '')'' @ rest"
    using u(2) not_space_rparen by (simp add: js_def)
  have ti: "title_part (js '')'' @ rest) = None"
    using not_space_rparen by (simp add: title_part_def js_def)
  show ?thesis
    unfolding link_re_def
    by (simp only: lit_append dk tk scheme_append[OF s] tu du ti option.case if_not_P[OF u(1)])
qed

lemma image_re_match:
  assumes "\<forall>c \<in> set txt. c \<noteq> ch CHR '']''"
    and "u \<noteq> []" "\<forall>c \<in> set u. url_char c"
    and "sch = js ''http://'' \<or> sch = js ''https://''"
  shows "image_re (js ''!['' @ txt @ js '']('' @ sch @ u @ js '')'' @ rest) = Some (txt, rest)"
proof -
  have "js ''!['' @ txt @ js '']('' @ sch @ u @ js '')'' @ rest
      = js ''!'' @ (js ''['' @ txt @ js '']('' @ sch @ u @ js '')'' @ rest)"
    by (simp add: js_def)
  then show ?thesis
    using link_re_match[OF assms, of rest]
    by (simp only: image_re_def lit_append option.case)
qed

lemma angle_re_match:
  assumes u: "u \<noteq> []" "\<forall>c \<in> set u. c \<noteq> ch CHR ''>''"
    and s: "sch = js ''http://'' \<or> sch = js ''https://''"
  shows "angle_re (js ''<'' @ sch @ u @ js ''>'' @ rest) = Some rest"
proof -
  have tk: "takeWhile (\<lambda>c. c \<noteq> ch CHR ''>'') (u @ js ''>'' @ rest) = u"
    using u(2) by (simp add: js_def)
  have dk: "dropWhile (\<lambda>c. c \<noteq> ch CHR ''>'') (u @ js ''>'' @ rest) = js ''>'' @ rest"
    using u(2) by (simp add: js_def)
  show ?thesis
    unfolding angle_re_def
    by (simp only: lit_append scheme_append[OF s] tk dk option.case if_not_P[OF u(1)])
qed

lemma bare_re_match:
  assumes u: "u \<noteq> []" "\<forall>c \<in> set u. \<not> is_space c"
    and s: "sch = js ''http://'' \<or> sch = js ''https://''"
    and w: "is_space w"
  shows "bare_re (sch @ u @ w # rest) = Some (w # rest)"
proof -
  have tk: "takeWhile (\<lambda>c. \<not> is_space c) (u @ w # rest) = u"
    using u(2) w by simp
  have dk: "dropWhile (\<lambda>c. \<not> is_space c) (u @ w # rest) = w # rest"
    using u(2) w by simp
  show ?thesis
    unfolding bare_re_def
    by (simp only: scheme_append[OF s] tk dk option.case if_not_P[OF u(1)])
qed

lemma lit_dropWhile_none:
  assumes "\<forall>c \<in> set post. c \<noteq> d"
  shows "lit [d] (dropWhile P post) = None"
proof (cases "dropWhile P post")
  case Nil
  show ?thesis by (simp only: Nil lit.simps)
next
  case (Cons a as)
  then have "a \<in> set post" by (metis list.set_intros(1) set_dropWhileD)
  with assms have "d \<noteq> a" by auto
  then show ?thesis by (simp only: Cons lit.simps if_False)
qed

lemma ref_re_match:
  assumes t: "txt \<noteq> []" "\<forall>c \<in> set txt. c \<noteq> ch CHR '']''"
    and u: "u \<noteq> []" "\<forall>c \<in> set u. \<not> is_space c"
    and s: "sch = js ''http://'' \<or> sch = js ''https://''"
    and p: "\<forall>c \<in> set post. c \<noteq> ch (CHR 0x22)"
    and l: "at_line_start prev"
  shows "ref_re prev (js ''['' @ txt @ js '']: '' @ sch @ u @ 0x0A # post) = Some (0x0A # post)"
proof -
  let ?r0 = "txt @ js '']: '' @ sch @ u @ 0x0A # post"
  have j: "js '']: '' @ sch @ u @ 0x0A # post = js '']:'' @ (ch CHR '' '' # sch @ u @ 0x0A # post)"
    by (simp add: js_def)
  have tk: "takeWhile (\<lambda>c. c \<noteq> ch CHR '']'') ?r0 = txt"
    using t(2) by (simp add: js_def)
  have dk: "dropWhile (\<lambda>c. c \<noteq> ch CHR '']'') ?r0 = js '']:'' @ (ch CHR '' '' # sch @ u @ 0x0A # post)"
    using t(2) by (simp add: js_def)
  have hs: "\<not> is_space (hd sch)" "sch \<noteq> []"
    using s by (auto simp: js_def ch_def is_space_def is_line_terminator_def)
  then have ds: "dropWhile is_space (ch CHR '' '' # sch @ u @ 0x0A # post) = sch @ u @ 0x0A # post"
    using space_chars by (cases sch) auto
  have tu: "takeWhile (\<lambda>c. \<not> is_space c) (u @ 0x0A # post) = u"
    using u(2) space_chars by simp
  have du: "dropWhile (\<lambda>c. \<not> is_space c) (u @ 0x0A # post) = 0x0A # post"
    using u(2) space_chars by simp
  have ti: "title_part (0x0A # post) = None"
    using space_chars lit_dropWhile_none[OF p, of is_space] by (simp add: title_part_def)
  have e: "at_line_end (0x0A # post)"
    using space_chars by (simp add: at_line_end_def)
  show ?thesis
    unfolding ref_re_def
    by (simp only: l not_True_eq_False if_False lit_append tk dk ds scheme_append[OF s] tu du ti e
        option.case if_not_P[OF t(1)] if_not_P[OF u(1)] if_True)
qed

lemma no_image: "\<forall>c \<in> set x. c \<noteq> ch CHR ''!'' \<Longrightarrow> replace_all image_pattern prev x = x"
  by (rule replace_all_none) (auto simp: image_start)

lemma no_link: "\<forall>c \<in> set x. c \<noteq> ch CHR ''['' \<Longrightarrow> replace_all link_pattern prev x = x"
  by (rule replace_all_none) (auto simp: link_start)

lemma no_ref: "\<forall>c \<in> set x. c \<noteq> ch CHR ''['' \<Longrightarrow> replace_all ref_pattern prev x = x"
  by (rule replace_all_none) (auto simp: ref_start)

lemma no_angle: "\<forall>c \<in> set x. c \<noteq> ch CHR ''<'' \<Longrightarrow> replace_all angle_pattern prev x = x"
  by (rule replace_all_none) (auto simp: angle_start)

lemma no_bare: "\<forall>c \<in> set x. c \<noteq> ch CHR ''h'' \<Longrightarrow> replace_all bare_pattern prev x = x"
  by (rule replace_all_none) (auto simp: bare_start)

lemma plainD:
  assumes "plain s"
  shows "\<forall>c \<in> set s. c \<noteq> ch CHR ''!''" "\<forall>c \<in> set s. c \<noteq> ch CHR ''[''"
    "\<forall>c \<in> set s. c \<noteq> ch CHR '']''" "\<forall>c \<in> set s. c \<noteq> ch CHR ''<''"
    "\<forall>c \<in> set s. c \<noteq> ch CHR ''h''" "\<forall>c \<in> set s. c \<noteq> ch (CHR 0x22)"
  using assms by (auto simp: plain_def list_all_iff)

lemma url_bodyD:
  assumes "url_body u"
  shows "u \<noteq> []" "\<forall>c \<in> set u. \<not> is_space c" "\<forall>c \<in> set u. url_char c"
    "\<forall>c \<in> set u. c \<noteq> ch CHR ''>''" "\<forall>c \<in> set u. c \<noteq> ch CHR ''!''"
    "\<forall>c \<in> set u. c \<noteq> ch CHR ''[''" "\<forall>c \<in> set u. c \<noteq> ch CHR ''<''"
  using assms by (auto simp: url_body_def list_all_iff url_char_def)

lemma schD:
  assumes "sch = js ''http://'' \<or> sch = js ''https://''"
  shows "\<forall>c \<in> set sch. c \<noteq> ch CHR ''!''" "\<forall>c \<in> set sch. c \<noteq> ch CHR ''[''"
    "\<forall>c \<in> set sch. c \<noteq> ch CHR ''<''"
  using assms by (auto simp: js_def ch_def)

lemma strip_plain:
  assumes "plain y"
  shows "stripUrlsFromMarkdown y = trim y"
  using plainD[OF assms]
  by (simp add: stripUrlsFromMarkdown_def Let_def no_image no_link no_ref no_angle no_bare)

lemma plain_append: "plain (a @ b) \<longleftrightarrow> plain a \<and> plain b"
  by (simp add: plain_def)

lemma plain_nl: "plain [0x0A]" "plain (js '' '')"
  by (simp_all add: plain_def ch_def js_def)

lemma replace_one:
  assumes pre: "\<And>prev c cs. c \<in> set pre \<Longrightarrow> m prev (c # cs) = None"
    and post: "\<And>prev. replace_all m prev rest = rest"
    and k: "k \<noteq> []"
    and mt: "m (if pre = [] then prev else Some (last pre)) (k @ rest) = Some (rep, rest)"
  shows "replace_all m prev (pre @ k @ rest) = pre @ rep @ rest"
proof -
  from replace_all_match[of m "if pre = [] then prev else Some (last pre)" k rest rep, OF mt k]
  obtain prev' where
    "replace_all m (if pre = [] then prev else Some (last pre)) (k @ rest) = rep @ replace_all m prev' rest"
    by blast
  with post have "replace_all m (if pre = [] then prev else Some (last pre)) (k @ rest) = rep @ rest"
    by simp
  then show ?thesis using replace_all_skip[of pre m prev "k @ rest"] pre by simp
qed

lemma strip_via_image:
  assumes "replace_all image_pattern None x = y" "plain y"
  shows "stripUrlsFromMarkdown x = trim y"
  using assms plainD[OF assms(2)]
  by (simp add: stripUrlsFromMarkdown_def Let_def no_link no_ref no_angle no_bare)

lemma strip_via_link:
  assumes "\<forall>c \<in> set x. c \<noteq> ch CHR ''!''" "replace_all link_pattern None x = y" "plain y"
  shows "stripUrlsFromMarkdown x = trim y"
  using assms plainD[OF assms(3)]
  by (simp add: stripUrlsFromMarkdown_def Let_def no_image no_ref no_angle no_bare)

lemma strip_via_ref:
  assumes "\<forall>c \<in> set x. c \<noteq> ch CHR ''!''" "replace_all link_pattern None x = x"
    "replace_all ref_pattern None x = y" "plain y"
  shows "stripUrlsFromMarkdown x = trim y"
  using assms plainD[OF assms(4)]
  by (simp add: stripUrlsFromMarkdown_def Let_def no_image no_angle no_bare)

lemma strip_via_angle:
  assumes "\<forall>c \<in> set x. c \<noteq> ch CHR ''!''" "\<forall>c \<in> set x. c \<noteq> ch CHR ''[''"
    "replace_all angle_pattern None x = y" "plain y"
  shows "stripUrlsFromMarkdown x = trim y"
  using assms plainD[OF assms(4)]
  by (simp add: stripUrlsFromMarkdown_def Let_def no_image no_link no_ref no_bare)

lemma strip_via_bare:
  assumes "\<forall>c \<in> set x. c \<noteq> ch CHR ''!''" "\<forall>c \<in> set x. c \<noteq> ch CHR ''[''"
    "\<forall>c \<in> set x. c \<noteq> ch CHR ''<''" "replace_all bare_pattern None x = y"
  shows "stripUrlsFromMarkdown x = trim y"
  using assms
  by (simp add: stripUrlsFromMarkdown_def Let_def no_image no_link no_ref no_angle)

lemma strip_image:
  assumes pre: "plain pre" and tx: "plain txt" and post: "plain post" and u: "url_body u"
    and s: "sch = js ''http://'' \<or> sch = js ''https://''"
  shows "stripUrlsFromMarkdown (pre @ js ''!['' @ txt @ js '']('' @ sch @ u @ js '')'' @ post)
           = trim (pre @ txt @ post)"
proof -
  let ?k = "js ''!['' @ txt @ js '']('' @ sch @ u @ js '')''"
  have m: "image_pattern p (?k @ post) = Some (txt, post)" for p
    using image_re_match[OF plainD(3)[OF tx] url_bodyD(1)[OF u] url_bodyD(3)[OF u] s, of post]
    by (simp add: image_pattern_def)
  have k: "?k \<noteq> []" by (simp add: js_def)
  have "replace_all image_pattern None (pre @ ?k @ post) = pre @ txt @ post"
    using plainD(1)[OF pre] plainD(1)[OF post]
    by (intro replace_one k m) (auto simp: image_start no_image)
  then have "replace_all image_pattern None (pre @ js ''!['' @ txt @ js '']('' @ sch @ u @ js '')'' @ post)
      = pre @ txt @ post" by simp
  then show ?thesis
    by (rule strip_via_image) (simp add: plain_append pre tx post)
qed

lemma strip_link:
  assumes pre: "plain pre" and tx: "plain txt" and post: "plain post" and u: "url_body u"
    and s: "sch = js ''http://'' \<or> sch = js ''https://''"
  shows "stripUrlsFromMarkdown (pre @ js ''['' @ txt @ js '']('' @ sch @ u @ js '')'' @ post)
           = trim (pre @ txt @ post)"
proof -
  let ?k = "js ''['' @ txt @ js '']('' @ sch @ u @ js '')''"
  let ?x = "pre @ js ''['' @ txt @ js '']('' @ sch @ u @ js '')'' @ post"
  have m: "link_pattern p (?k @ post) = Some (txt, post)" for p
    using link_re_match[OF plainD(3)[OF tx] url_bodyD(1)[OF u] url_bodyD(3)[OF u] s, of post]
    by (simp add: link_pattern_def)
  have k: "?k \<noteq> []" by (simp add: js_def)
  have nb: "\<forall>c \<in> set ?x. c \<noteq> ch CHR ''!''"
    using plainD(1)[OF pre] plainD(1)[OF tx] plainD(1)[OF post] url_bodyD(5)[OF u] schD(1)[OF s]
    by (auto simp: js_def ch_def)
  have "replace_all link_pattern None (pre @ ?k @ post) = pre @ txt @ post"
    using plainD(2)[OF pre] plainD(2)[OF post]
    by (intro replace_one k m) (auto simp: link_start no_link)
  then have "replace_all link_pattern None ?x = pre @ txt @ post" by simp
  with nb show ?thesis
    by (rule strip_via_link) (simp add: plain_append pre tx post)
qed

lemma strip_angle:
  assumes pre: "plain pre" and post: "plain post" and u: "url_body u"
    and s: "sch = js ''http://'' \<or> sch = js ''https://''"
  shows "stripUrlsFromMarkdown (pre @ js ''<'' @ sch @ u @ js ''>'' @ post) = trim (pre @ post)"
proof -
  let ?k = "js ''<'' @ sch @ u @ js ''>''"
  let ?x = "pre @ js ''<'' @ sch @ u @ js ''>'' @ post"
  have m: "angle_pattern p (?k @ post) = Some ([], post)" for p
    using angle_re_match[OF url_bodyD(1)[OF u] url_bodyD(4)[OF u] s, of post]
    by (simp add: angle_pattern_def)
  have k: "?k \<noteq> []" by (simp add: js_def)
  have nb: "\<forall>c \<in> set ?x. c \<noteq> ch CHR ''!''"
    using plainD(1)[OF pre] plainD(1)[OF post] url_bodyD(5)[OF u] schD(1)[OF s]
    by (auto simp: js_def ch_def)
  have nl: "\<forall>c \<in> set ?x. c \<noteq> ch CHR ''[''"
    using plainD(2)[OF pre] plainD(2)[OF post] url_bodyD(6)[OF u] schD(2)[OF s]
    by (auto simp: js_def ch_def)
  have "replace_all angle_pattern None (pre @ ?k @ post) = pre @ [] @ post"
    using plainD(4)[OF pre] plainD(4)[OF post]
    by (intro replace_one k m) (auto simp: angle_start no_angle)
  then have "replace_all angle_pattern None ?x = pre @ post" by simp
  with nb nl show ?thesis
    by (rule strip_via_angle) (simp add: plain_append pre post)
qed

lemma strip_bare:
  assumes pre: "plain pre" and post: "plain post" and u: "url_body u"
    and s: "sch = js ''http://'' \<or> sch = js ''https://''"
  shows "stripUrlsFromMarkdown (pre @ sch @ u @ js '' '' @ post) = trim (pre @ js '' '' @ post)"
proof -
  let ?k = "sch @ u"
  let ?r = "ch CHR '' '' # post"
  let ?x = "pre @ sch @ u @ js '' '' @ post"
  have j: "js '' '' @ post = ?r" by (simp add: js_def)
  have m: "bare_pattern p (?k @ ?r) = Some ([], ?r)" for p
    using bare_re_match[OF url_bodyD(1)[OF u] url_bodyD(2)[OF u] s space_chars(3), of post]
    by (simp add: bare_pattern_def)
  have k: "?k \<noteq> []" using url_bodyD(1)[OF u] by simp
  have nb: "\<forall>c \<in> set ?x. c \<noteq> ch CHR ''!''"
    using plainD(1)[OF pre] plainD(1)[OF post] url_bodyD(5)[OF u] schD(1)[OF s]
    by (auto simp: js_def ch_def)
  have nl: "\<forall>c \<in> set ?x. c \<noteq> ch CHR ''[''"
    using plainD(2)[OF pre] plainD(2)[OF post] url_bodyD(6)[OF u] schD(2)[OF s]
    by (auto simp: js_def ch_def)
  have na: "\<forall>c \<in> set ?x. c \<noteq> ch CHR ''<''"
    using plainD(4)[OF pre] plainD(4)[OF post] url_bodyD(7)[OF u] schD(3)[OF s]
    by (auto simp: js_def ch_def)
  have pr: "\<forall>c \<in> set ?r. c \<noteq> ch CHR ''h''"
    using plainD(5)[OF post] by (auto simp: ch_def)
  have "replace_all bare_pattern None (pre @ ?k @ ?r) = pre @ [] @ ?r"
    using plainD(5)[OF pre] pr
    by (intro replace_one k m) (auto simp: bare_start no_bare)
  then have "replace_all bare_pattern None ?x = pre @ js '' '' @ post" by (simp add: j)
  with nb nl na show ?thesis by (rule strip_via_bare)
qed

lemma link_re_ref_line:
  assumes "\<forall>c \<in> set txt. c \<noteq> ch CHR '']''"
  shows "link_re (js ''['' @ txt @ js '']: '' @ r) = None"
proof -
  have dk: "dropWhile (\<lambda>c. c \<noteq> ch CHR '']'') (txt @ js '']: '' @ r) = js '']: '' @ r"
    using assms by (simp add: js_def)
  have "lit (js '']('') (js '']: '' @ r) = None"
    by (simp add: js_def ch_def)
  then show ?thesis
    unfolding link_re_def by (simp only: lit_append dk option.case)
qed

lemma strip_ref:
  assumes pre: "plain pre" and lb: "plain lbl" "lbl \<noteq> []" and post: "plain post"
    and u: "url_body u" and s: "sch = js ''http://'' \<or> sch = js ''https://''"
  shows "stripUrlsFromMarkdown (pre @ [0x0A] @ js ''['' @ lbl @ js '']: '' @ sch @ u @ [0x0A] @ post)
           = trim (pre @ [0x0A, 0x0A] @ post)"
proof -
  let ?pre = "pre @ [0x0A]"
  let ?k = "js ''['' @ lbl @ js '']: '' @ sch @ u"
  let ?r = "0x0A # post"
  let ?x = "pre @ [0x0A] @ js ''['' @ lbl @ js '']: '' @ sch @ u @ [0x0A] @ post"
  have x: "?x = ?pre @ ?k @ ?r" by simp
  have ppre: "plain ?pre" using pre plain_nl by (simp add: plain_append)
  have k: "?k \<noteq> []" by (simp add: js_def)
  have nb: "\<forall>c \<in> set ?x. c \<noteq> ch CHR ''!''"
    using plainD(1)[OF pre] plainD(1)[OF lb(1)] plainD(1)[OF post] url_bodyD(5)[OF u] schD(1)[OF s]
    by (auto simp: js_def ch_def)
  have tail: "\<forall>c \<in> set (lbl @ js '']: '' @ sch @ u @ ?r). c \<noteq> ch CHR ''[''"
    using plainD(2)[OF lb(1)] plainD(2)[OF post] url_bodyD(6)[OF u] schD(2)[OF s]
    by (auto simp: js_def ch_def)
  have rr: "\<forall>c \<in> set ?r. c \<noteq> ch CHR ''[''"
    using plainD(2)[OF post] by (auto simp: ch_def)
  have lk: "replace_all link_pattern None ?x = ?x"
  proof -
    have a: "link_pattern p (?k @ ?r) = None" for p
      using link_re_ref_line[OF plainD(3)[OF lb(1)], of "sch @ u @ ?r"]
      by (simp add: link_pattern_def)
    have "replace_all link_pattern p (?k @ ?r) = ?k @ ?r" for p
    proof -
      have "?k @ ?r = ch CHR ''['' # (lbl @ js '']: '' @ sch @ u @ ?r)" by (simp add: js_def)
      moreover have "link_pattern p (ch CHR ''['' # (lbl @ js '']: '' @ sch @ u @ ?r)) = None"
        using a[of p] calculation by simp
      moreover have "replace_all link_pattern (Some (ch CHR ''['')) (lbl @ js '']: '' @ sch @ u @ ?r)
          = lbl @ js '']: '' @ sch @ u @ ?r"
        using tail by (rule no_link)
      ultimately show ?thesis by simp
    qed
    then have "replace_all link_pattern None (?pre @ ?k @ ?r) = ?pre @ ?k @ ?r"
      using replace_all_skip[of ?pre link_pattern None "?k @ ?r"] plainD(2)[OF ppre]
      by (simp add: link_start)
    then show ?thesis by simp
  qed
  have m: "ref_pattern (Some 0x0A) (?k @ ?r) = Some ([], ?r)"
    using ref_re_match[OF lb(2) plainD(3)[OF lb(1)] url_bodyD(1)[OF u] url_bodyD(2)[OF u] s
        plainD(6)[OF post], of "Some 0x0A"] space_chars
    by (simp add: ref_pattern_def at_line_start_def)
  have "replace_all ref_pattern None (?pre @ ?k @ ?r) = ?pre @ [] @ ?r"
  proof (rule replace_one[OF _ _ k])
    show "ref_pattern prev (c # cs) = None" if "c \<in> set ?pre" for prev c cs
      using that plainD(2)[OF ppre] by (auto simp: ref_start)
    show "replace_all ref_pattern prev ?r = ?r" for prev
      using rr by (rule no_ref)
    show "ref_pattern (if ?pre = [] then None else Some (last ?pre)) (?k @ ?r) = Some ([], ?r)"
      using m by simp
  qed
  then have rf: "replace_all ref_pattern None ?x = pre @ [0x0A, 0x0A] @ post" by simp
  have py: "plain (pre @ [0x0A, 0x0A] @ post)"
    using pre post by (simp add: plain_append) (simp add: plain_def ch_def)
  from nb lk rf py show ?thesis by (rule strip_via_ref)
qed

lemma takeWhile_hd_Nil: "s \<noteq> [] \<Longrightarrow> \<not> P (hd s) \<Longrightarrow> takeWhile P s = []"
  by (cases s) simp_all

lemma strip_trimmed:
  "takeWhile is_space (stripUrlsFromMarkdown x) = [] \<and>
   takeWhile is_space (rev (stripUrlsFromMarkdown x)) = []"
proof (cases "stripUrlsFromMarkdown x = []")
  case True
  then show ?thesis by simp
next
  case False
  have 1: "takeWhile is_space (stripUrlsFromMarkdown x) = []"
    using False strip_hd[OF False] by (rule takeWhile_hd_Nil)
  have "rev (stripUrlsFromMarkdown x) \<noteq> []" using False by simp
  moreover have "\<not> is_space (hd (rev (stripUrlsFromMarkdown x)))"
    using strip_last[OF False] by (simp add: hd_rev)
  ultimately have 2: "takeWhile is_space (rev (stripUrlsFromMarkdown x)) = []"
    by (rule takeWhile_hd_Nil)
  from 1 2 show ?thesis by (rule conjI)
qed

lemma strip_no_match:
  "\<not> has_match image_pattern None (stripUrlsFromMarkdown x)"
  "\<not> has_match link_pattern None (stripUrlsFromMarkdown x)"
  "\<not> has_match ref_pattern None (stripUrlsFromMarkdown x)"
  "\<not> has_match bare_pattern None (stripUrlsFromMarkdown x)"
proof -
  have "stripUrlsFromMarkdown x = stripUrlsFromMarkdown x @ []" by simp
  then have "\<not> has_match bare_pattern None (stripUrlsFromMarkdown x)"
    by (rule prefix_of_strip_no_url)
  from no_url_no_match[OF this]
  show "\<not> has_match image_pattern None (stripUrlsFromMarkdown x)"
    "\<not> has_match link_pattern None (stripUrlsFromMarkdown x)"
    "\<not> has_match ref_pattern None (stripUrlsFromMarkdown x)"
    "\<not> has_match bare_pattern None (stripUrlsFromMarkdown x)"
    by auto
qed

lemma dropWhile_replicate_id:
  "\<not> P x \<Longrightarrow> 0 < n \<Longrightarrow> dropWhile P (replicate n x @ s) = replicate n x @ s"
  by (cases n) simp_all

lemma trim_run:
  assumes "\<not> is_space a" "\<not> is_space b" "is_space w" "0 < n"
  shows "trim (replicate n a @ [w, b]) = replicate n a @ [w, b]"
    and "trim (replicate n a @ [w]) = replicate n a"
proof -
  have 1: "dropWhile is_space (replicate n a @ s) = replicate n a @ s" for s
    using assms(1,4) by (rule dropWhile_replicate_id)
  from 1[of "[]"] have 2: "dropWhile is_space (replicate n a) = replicate n a" by simp
  show "trim (replicate n a @ [w, b]) = replicate n a @ [w, b]"
    using assms(2) by (simp add: trim_def 1)
  show "trim (replicate n a @ [w]) = replicate n a"
    using assms(1,3) by (simp add: trim_def 1)
qed

text \<open>
  The cut at 80,000 code units can leave white space at the end of the content, which a
  second run of the sanitizer trims.
\<close>

lemma sanitize_cut_leaves_space:
  "sanitize (replicate 79999 (ch CHR ''a'') @ js '' b'') = replicate 79999 (ch CHR ''a'') @ js '' '' \<and>
   sanitize (replicate 79999 (ch CHR ''a'') @ js '' '') = replicate 79999 (ch CHR ''a'')"
proof -
  let ?a = "replicate 79999 (ch CHR ''a'')"
  have pa: "plain ?a" by (simp add: plain_def list_all_iff ch_def)
  have pb: "plain (js '' b'')" by (simp add: plain_def js_def ch_def)
  have na: "\<not> is_space (ch CHR ''a'')" "\<not> is_space (ch CHR ''b'')"
    by (simp_all add: is_space_def is_line_terminator_def ch_def)
  have j: "js '' b'' = [ch CHR '' '', ch CHR ''b'']" "js '' '' = [ch CHR '' '']"
    by (simp_all add: js_def)
  have t1: "trim (?a @ js '' b'') = ?a @ js '' b''"
    unfolding j by (rule trim_run(1)[OF na space_chars(3)]) simp
  have t2: "trim (?a @ js '' '') = ?a"
    unfolding j by (rule trim_run(2)[OF na space_chars(3)]) simp
  have s1: "stripUrlsFromMarkdown (?a @ js '' b'') = ?a @ js '' b''"
    using strip_plain[of "?a @ js '' b''"] pa pb t1 by (simp add: plain_append)
  have s2: "stripUrlsFromMarkdown (?a @ js '' '') = ?a"
    using strip_plain[of "?a @ js '' ''"] pa t2 plain_nl(2) by (simp add: plain_append)
  have c: "take 80000 (?a @ js '' b'') = ?a @ js '' ''"
    by (simp add: js_def)
  show ?thesis
    by (simp only: sanitize_def s1 s2 c) simp
qed

section \<open>Properties of searchOnWeb\<close>

text \<open>
  Claim C1 says that a malformed hit is dropped and the others are kept. The schema is
  parsed with \<open>parse\<close> as a whole: a response whose top level is as expected and whose
  second hit lacks the required fields makes the call fail with the ZodError.
\<close>

theorem search_fails_on_one_malformed_hit:
  "brave web_bad (js ''q'') = Json response_bad \<and>
   web_results response_bad = Some [hit_a, JObject []] \<and>
   parse_brave_result hit_a \<noteq> None \<and>
   searchOnWeb web_bad (js ''q'') = Inl ZodError"
  by (simp add: web_results_bad parse_hit_a searchOnWeb_def search_phase_def parse_response_def
      parse_empty_object web_bad_def)

text \<open>
  Claim C1, amended. The search phase succeeds exactly when the request succeeds, the
  body is JSON, the response has an array under \<open>web.results\<close> and every entry of that
  array is well-formed; all entries are then kept, in order. The call as a whole returns
  exactly when the search phase does, and a single malformed entry makes it fail with
  the ZodError; no entry is ever dropped on its own.
\<close>

theorem search_is_all_or_nothing:
  "(search_phase w q = Inr hs \<longleftrightarrow>
      (\<exists>j es. brave w q = Json j \<and> web_results j = Some es \<and>
         (\<forall>e \<in> set es. parse_brave_result e \<noteq> None) \<and>
         hs = map (\<lambda>e. to_search_result (the (parse_brave_result e))) es)) \<and>
   ((\<exists>rs. searchOnWeb w q = Inr rs) \<longleftrightarrow> (\<exists>hs. search_phase w q = Inr hs)) \<and>
   (brave w q = Json j' \<and> web_results j' = Some es' \<and> e' \<in> set es' \<and> parse_brave_result e' = None
      \<longrightarrow> searchOnWeb w q = Inl ZodError)"
proof -
  have "searchOnWeb w q = Inl ZodError"
    if "brave w q = Json j'" "web_results j' = Some es'" "e' \<in> set es'" "parse_brave_result e' = None"
  proof -
    from that(3,4) have "those (map parse_brave_result es') = None"
      unfolding those_map_None_iff by blast
    with that(1,2) show ?thesis
      by (simp add: searchOnWeb_def search_phase_def parse_response_def)
  qed
  then show ?thesis
    using search_phase_Inr_iff[of w q hs] searchOnWeb_Inr_iff[of w q] by blast
qed

theorem search_is_all_or_nothing_witness:
  "search_phase web_two (js ''q'') = Inr [sr_a, sr_b] \<and>
   (\<exists>j es. brave web_two (js ''q'') = Json j \<and> web_results j = Some es \<and>
         (\<forall>e \<in> set es. parse_brave_result e \<noteq> None) \<and>
         [sr_a, sr_b] = map (\<lambda>e. to_search_result (the (parse_brave_result e))) es) \<and>
   (brave web_bad (js ''q'') = Json response_bad \<and> web_results response_bad = Some [hit_a, JObject []] \<and>
    JObject [] \<in> set [hit_a, JObject []] \<and> parse_brave_result (JObject []) = None) \<and>
   searchOnWeb web_bad (js ''q'') = Inl ZodError"
proof -
  have s: "search_phase web_two (js ''q'') = Inr [sr_a, sr_b]"
    by (rule search_phase_two)
  have h1: "brave web_bad (js ''q'') = Json response_bad" by (simp add: web_bad_def)
  have h2: "web_results response_bad = Some [hit_a, JObject []]" by (rule web_results_bad)
  have h3: "JObject [] \<in> set [hit_a, JObject []]" by simp
  have h4: "parse_brave_result (JObject []) = None" by (rule parse_empty_object)
  from h1 h2 h3 h4
  have h: "brave web_bad (js ''q'') = Json response_bad \<and> web_results response_bad = Some [hit_a, JObject []] \<and>
    JObject [] \<in> set [hit_a, JObject []] \<and> parse_brave_result (JObject []) = None"
    by (intro conjI)
  from s search_is_all_or_nothing[of web_two "js ''q''" "[sr_a, sr_b]", THEN conjunct1]
  have e: "\<exists>j es. brave web_two (js ''q'') = Json j \<and> web_results j = Some es \<and>
         (\<forall>e \<in> set es. parse_brave_result e \<noteq> None) \<and>
         [sr_a, sr_b] = map (\<lambda>e. to_search_result (the (parse_brave_result e))) es"
    by (rule rev_iffD1)
  from search_is_all_or_nothing[of web_bad "js ''q''" "[]" response_bad "[hit_a, JObject []]" "JObject []",
      THEN conjunct2, THEN conjunct2] h
  have z: "searchOnWeb web_bad (js ''q'') = Inl ZodError"
    by (rule mp)
  from s e h1 h2 h3 h4 z show ?thesis by (intro conjI)
qed

text \<open>
  Claim C2. Once the search phase has produced its hits, searchOnWeb returns, whatever
  the scrape tasks do: the result holds, in order, a finding for each hit whose scrape
  succeeded with non-empty sanitized content and nothing for the others, and it is the
  empty list when every scrape failed.
\<close>

theorem searchOnWeb_survives_scrape_failures:
  assumes "search_phase w q = Inr hs"
  shows "searchOnWeb w q =
           Inr (List.map_filter
                  (\<lambda>i. finding_of (hs ! i) (firecrawl w i (sr_url (hs ! i)) scrape_options))
                  [0..<length hs]) \<and>
         ((\<forall>i < length hs. scraped_content (firecrawl w i (sr_url (hs ! i)) scrape_options) = None)
            \<longrightarrow> searchOnWeb w q = Inr [])"
  using assms fan_out_all_failed[of hs w]
  by (simp add: searchOnWeb_def fan_out_eq[symmetric])

theorem searchOnWeb_survives_scrape_failures_witness:
  "search_phase web_two (js ''q'') = Inr [sr_a, sr_b] \<and>
   firecrawl web_two 1 (sr_url sr_b) scrape_options = Threw \<and>
   searchOnWeb web_two (js ''q'') =
     Inr (List.map_filter
            (\<lambda>i. finding_of ([sr_a, sr_b] ! i) (firecrawl web_two i (sr_url ([sr_a, sr_b] ! i)) scrape_options))
            [0..<length [sr_a, sr_b]]) \<and>
   searchOnWeb web_two (js ''q'') = Inr [finding_a] \<and>
   search_phase web_down (js ''q'') = Inr [sr_a, sr_b] \<and>
   scraped_content (firecrawl web_down 0 (sr_url sr_a) scrape_options) = None \<and>
   scraped_content (firecrawl web_down 1 (sr_url sr_b) scrape_options) = None \<and>
   searchOnWeb web_down (js ''q'') = Inr []"
proof -
  have d: "\<forall>i < length [sr_a, sr_b]. scraped_content (firecrawl web_down i (sr_url ([sr_a, sr_b] ! i)) scrape_options) = None"
    by (simp add: web_down_def scraped_content_def)
  have t: "firecrawl web_two 1 (sr_url sr_b) scrape_options = Threw"
    by (simp add: web_two_def)
  have s2: "search_phase web_two (js ''q'') = Inr [sr_a, sr_b]" by (rule search_phase_two)
  have sd: "search_phase web_down (js ''q'') = Inr [sr_a, sr_b]" by (rule search_phase_down)
  note a = searchOnWeb_survives_scrape_failures[OF s2, THEN conjunct1]
  have b: "searchOnWeb web_two (js ''q'') = Inr [finding_a]" by (rule searchOnWeb_two)
  from searchOnWeb_survives_scrape_failures[OF sd, THEN conjunct2] d
  have e: "searchOnWeb web_down (js ''q'') = Inr []" by (rule mp)
  have d0: "scraped_content (firecrawl web_down 0 (sr_url sr_a) scrape_options) = None"
    and d1: "scraped_content (firecrawl web_down 1 (sr_url sr_b) scrape_options) = None"
    by (simp_all add: web_down_def scraped_content_def)
  from s2 t a b sd d0 d1 e show ?thesis by (intro conjI)
qed

text \<open>
  Claim C4. Every finding that searchOnWeb returns has non-empty content, and it comes
  from a hit whose scrape returned with \<open>success\<close> set and without an error: its content
  is the sanitized markdown of that response.
\<close>

theorem findings_have_content:
  assumes "searchOnWeb w q = Inr rs" and "f \<in> set rs"
  shows "content f \<noteq> [] \<and>
         (\<exists>hs i resp. search_phase w q = Inr hs \<and> i < length hs \<and>
            firecrawl w i (sr_url (hs ! i)) scrape_options = Returned resp \<and>
            success resp \<and> \<not> truthy (error resp) \<and>
            f = \<lparr>title = sr_title (hs ! i), link = sr_url (hs ! i),
                 content = sanitize (case markdown resp of None \<Rightarrow> [] | Some m \<Rightarrow> m)\<rparr>)"
proof -
  from assms(1) obtain hs where hs: "search_phase w q = Inr hs" "rs = fan_out w hs"
    by (auto simp: searchOnWeb_def split: sum.splits)
  with assms(2) obtain i where i: "i < length hs"
    "finding_of (hs ! i) (firecrawl w i (sr_url (hs ! i)) scrape_options) = Some f"
    by (auto simp: fan_out_eq map_filter_mem)
  then obtain c where c: "scraped_content (firecrawl w i (sr_url (hs ! i)) scrape_options) = Some c"
    "f = \<lparr>title = sr_title (hs ! i), link = sr_url (hs ! i), content = c\<rparr>"
    by (auto simp: finding_of_def split: option.splits)
  from scraped_content_SomeD[OF c(1)] obtain resp where
    r: "firecrawl w i (sr_url (hs ! i)) scrape_options = Returned resp" "success resp"
      "\<not> truthy (error resp)" "c = sanitize (case markdown resp of None \<Rightarrow> [] | Some m \<Rightarrow> m)"
    by blast
  have "content f \<noteq> []" using c scraped_content_nonempty by auto
  moreover have "\<exists>hs i resp. search_phase w q = Inr hs \<and> i < length hs \<and>
            firecrawl w i (sr_url (hs ! i)) scrape_options = Returned resp \<and>
            success resp \<and> \<not> truthy (error resp) \<and>
            f = \<lparr>title = sr_title (hs ! i), link = sr_url (hs ! i),
                 content = sanitize (case markdown resp of None \<Rightarrow> [] | Some m \<Rightarrow> m)\<rparr>"
    using hs(1) i(1) r c(2) by blast
  ultimately show ?thesis by (rule conjI)
qed

theorem findings_have_content_witness:
  "searchOnWeb web_two (js ''q'') = Inr [finding_a] \<and> finding_a \<in> set [finding_a] \<and>
   content finding_a \<noteq> [] \<and>
   (\<exists>hs i resp. search_phase web_two (js ''q'') = Inr hs \<and> i < length hs \<and>
            firecrawl web_two i (sr_url (hs ! i)) scrape_options = Returned resp \<and>
            success resp \<and> \<not> truthy (error resp) \<and>
            finding_a = \<lparr>title = sr_title (hs ! i), link = sr_url (hs ! i),
                 content = sanitize (case markdown resp of None \<Rightarrow> [] | Some m \<Rightarrow> m)\<rparr>)"
proof -
  have a: "searchOnWeb web_two (js ''q'') = Inr [finding_a]" by (rule searchOnWeb_two)
  have b: "finding_a \<in> set [finding_a]" by simp
  note c = findings_have_content[OF a b]
  from a b c[THEN conjunct1] c[THEN conjunct2] show ?thesis by (intro conjI)
qed

text \<open>
  Claim C7. Every scrape call carries the same options: a timeout of 15000 ms and a
  maximal cache age of 12 * 60 * 60 * 1000 = 43,200,000 ms. The provider is only ever
  asked with these options: exchanging it for any other provider that answers such
  requests in the same way leaves the outcome of searchOnWeb unchanged.
\<close>

theorem scrape_calls_use_fixed_options:
  "timeout scrape_options = 15000 \<and> maxAge scrape_options = 43200000 \<and>
   formats scrape_options = [''markdown''] \<and>
   ((\<forall>i u. fc i u scrape_options = firecrawl w i u scrape_options)
      \<longrightarrow> searchOnWeb (w\<lparr>firecrawl := fc\<rparr>) q = searchOnWeb w q)"
proof -
  have 1: "timeout scrape_options = 15000" by (simp add: scrape_options_def)
  have 2: "maxAge scrape_options = 43200000" by (simp add: scrape_options_def)
  have 3: "formats scrape_options = [''markdown'']" by (simp add: scrape_options_def)
  have 4: "(\<forall>i u. fc i u scrape_options = firecrawl w i u scrape_options)
      \<longrightarrow> searchOnWeb (w\<lparr>firecrawl := fc\<rparr>) q = searchOnWeb w q"
  proof
    assume h: "\<forall>i u. fc i u scrape_options = firecrawl w i u scrape_options"
    show "searchOnWeb (w\<lparr>firecrawl := fc\<rparr>) q = searchOnWeb w q"
      by (simp add: searchOnWeb_def search_phase_firecrawl fan_out_cong[of fc w, OF h] split: sum.splits)
  qed
  from 1 2 3 4 show ?thesis by (intro conjI)
qed

theorem scrape_calls_use_fixed_options_witness:
  "timeout scrape_options = 15000 \<and> maxAge scrape_options = 43200000 \<and>
   (\<forall>i u. (\<lambda>i u p. if p = scrape_options then Threw else Returned page) i u scrape_options
        = firecrawl web_down i u scrape_options) \<and>
   searchOnWeb (web_down\<lparr>firecrawl := (\<lambda>i u p. if p = scrape_options then Threw else Returned page)\<rparr>) (js ''q'')
     = searchOnWeb web_down (js ''q'')"
proof -
  let ?fc = "\<lambda>(i::nat) (u::jsstring) p. if p = scrape_options then Threw else Returned page"
  have h: "\<forall>i u. ?fc i u scrape_options = firecrawl web_down i u scrape_options"
    by (simp add: web_down_def)
  note t = scrape_calls_use_fixed_options[of ?fc web_down "js ''q''"]
  from t[THEN conjunct2, THEN conjunct2, THEN conjunct2] h
  have e: "searchOnWeb (web_down\<lparr>firecrawl := ?fc\<rparr>) (js ''q'') = searchOnWeb web_down (js ''q'')"
    by (rule mp)
  from t[THEN conjunct1] t[THEN conjunct2, THEN conjunct1] h e show ?thesis by (intro conjI)
qed

section \<open>Properties of the status\<close>

text \<open>
  Claim C8 counts a terminal failure state among the lifecycle states. The status type
  of the database has the four values of the progression and no other: there is no
  failure state to be in.
\<close>

theorem status_has_no_failure_state:
  "map fst status_labels = [''questions'', ''pending'', ''processing'', ''completed''] \<and>
   status_of_label ''failed'' = None \<and>
   (UNIV :: status set) = {Questions, Pending, Processing, Completed}"
  by (simp add: status_labels_def status_of_label_def status_UNIV)

text \<open>
  Claim C8, amended. A chat's status is one of exactly four states, questions, pending,
  processing and completed, and questions is the initial one; the type has no failure
  state. Along the progression questions, pending, processing, completed the status
  only moves forward, one step at a time: no state is left for an earlier one, and
  completed is terminal.
\<close>

theorem status_progression:
  "status_default = Questions \<and>
   (UNIV :: status set) = {Questions, Pending, Processing, Completed} \<and>
   (advance s = Some t \<longrightarrow> status_rank t = Suc (status_rank s)) \<and>
   (reaches s t \<longrightarrow> status_rank s \<le> status_rank t) \<and>
   (reaches s t \<and> reaches t s \<longrightarrow> s = t) \<and>
   (reaches Completed t \<longrightarrow> t = Completed) \<and>
   reaches Questions Completed"
proof -
  have inj: "\<And>a b. status_rank a = status_rank b \<Longrightarrow> a = b"
    subgoal for a b by (cases a; cases b) auto
    done
  have 1: "advance s = Some t \<longrightarrow> status_rank t = Suc (status_rank s)"
    by (cases s) auto
  have 2: "reaches s t \<longrightarrow> status_rank s \<le> status_rank t"
    using reaches_rank by blast
  have 3: "reaches s t \<and> reaches t s \<longrightarrow> s = t"
  proof
    assume "reaches s t \<and> reaches t s"
    then have "status_rank s \<le> status_rank t" "status_rank t \<le> status_rank s"
      using reaches_rank by blast+
    then have "status_rank s = status_rank t" by simp
    then show "s = t" by (rule inj)
  qed
  have 4: "reaches Completed t \<longrightarrow> t = Completed"
  proof
    assume "reaches Completed t"
    from reaches_rank[OF this] have "status_rank t = 3" by (cases t) auto
    then show "t = Completed" by (cases t) auto
  qed
  have 5: "reaches Questions Completed"
    by (rule reaches_step[of _ Processing], rule reaches_step[of _ Pending],
        rule reaches_step[of _ Questions], rule reaches_refl) simp_all
  have 0: "status_default = Questions" by (simp add: status_default_def)
  from 0 status_UNIV 1 2 3 4 5 show ?thesis by (intro conjI)
qed

theorem status_progression_witness:
  "advance Pending = Some Processing \<and> status_rank Processing = Suc (status_rank Pending) \<and>
   reaches Questions Processing \<and> status_rank Questions \<le> status_rank Processing \<and>
   \<not> reaches Processing Questions \<and>
   reaches Completed Completed"
proof -
  have a: "advance Pending = Some Processing" by simp
  have r: "reaches Questions Processing"
    by (rule reaches_step[of _ Pending], rule reaches_step[of _ Questions], rule reaches_refl) simp_all
  note t = status_progression[of Pending Processing]
  note u = status_progression[of Questions Processing]
  from t[THEN conjunct2, THEN conjunct2, THEN conjunct1] a
  have 1: "status_rank Processing = Suc (status_rank Pending)" by (rule mp)
  from u[THEN conjunct2, THEN conjunct2, THEN conjunct2, THEN conjunct1] r
  have 2: "status_rank Questions \<le> status_rank Processing" by (rule mp)
  have 3: "\<not> reaches Processing Questions"
  proof
    assume b: "reaches Processing Questions"
    from u[THEN conjunct2, THEN conjunct2, THEN conjunct2, THEN conjunct2, THEN conjunct1] r b
    have "Questions = Processing" by blast
    then show False by simp
  qed
  have 4: "reaches Completed Completed" by (rule reaches_refl)
  from a 1 r 2 3 4 show ?thesis by (intro conjI)
qed

section \<open>Properties of the sanitizer\<close>

text \<open>
  Claim C6. For every input string the sanitizer's output is at most 80,000 code units
  long; the same bound holds for the content of whatever scrapeSearchResult returns.
\<close>

theorem sanitize_length: "length (sanitize x) \<le> 80000 \<and> length (content (scrapeSearchResult scrapeUrl r)) \<le> 80000"
  by (simp add: sanitize_def scrapeSearchResult_def Let_def split: scrape_outcome.splits)

text \<open>
  Claim C9. For every input string, the output of stripUrlsFromMarkdown contains no
  absolute web URL: nowhere in it does \<open>http://\<close> or \<open>https://\<close> occur followed by a
  code unit that is not white space.
\<close>

theorem strip_no_absolute_url:
  "\<not> is_space c \<Longrightarrow>
     stripUrlsFromMarkdown x \<noteq> p @ js ''http://'' @ c # q \<and>
     stripUrlsFromMarkdown x \<noteq> p @ js ''https://'' @ c # q"
proof -
  assume c: "\<not> is_space c"
  then have "url_at (js ''http://'' @ c # q)" "url_at (js ''https://'' @ c # q)"
    unfolding url_at_iff by blast+
  then show ?thesis using strip_no_url_at by blast
qed

theorem strip_no_absolute_url_witness:
  "\<not> is_space (ch CHR ''b'') \<and>
   stripUrlsFromMarkdown (js ''see http://a.b now'') = js ''see  now'' \<and>
   stripUrlsFromMarkdown (js ''see http://a.b now'') \<noteq> js ''see '' @ js ''http://'' @ ch CHR ''b'' # js '' now'' \<and>
   stripUrlsFromMarkdown (js ''see http://a.b now'') \<noteq> js ''see '' @ js ''https://'' @ ch CHR ''b'' # js '' now''"
  using strip_no_absolute_url[of "ch CHR ''b''" "js ''see http://a.b now''" "js ''see ''" "js '' now''"]
  by (simp add: ev)

text \<open>
  Claim C3 says that the sanitizer is idempotent. It is not: removing an angle-bracketed
  URL can join the text around it into a new match of the same expression, which the
  later steps leave alone because \<open>http://\<close> is followed by white space there. A second
  run removes it.
\<close>

theorem sanitize_not_idempotent:
  "sanitize (js ''<http<http://x>:// a>'') = js ''<http:// a>'' \<and>
   sanitize (sanitize (js ''<http<http://x>:// a>'')) = [] \<and>
   sanitize (sanitize (js ''<http<http://x>:// a>'')) \<noteq> sanitize (js ''<http<http://x>:// a>'')"
  by (simp add: sanitize_def ev)

text \<open>
  Claim C3, amended. Applying the sanitizer twice gives the same result as applying it
  once whenever the first result contains no match of the angle-bracket expression and
  does not end in white space (which the cut at 80,000 code units can leave behind).
\<close>

theorem sanitize_idempotent_if_settled:
  assumes na: "\<not> has_match angle_pattern None (sanitize x)"
    and ne: "\<not> ends_with_space (sanitize x)"
  shows "sanitize (sanitize x) = sanitize x"
proof -
  let ?S = "stripUrlsFromMarkdown x"
  let ?y = "sanitize x"
  have y: "?S = ?y @ drop 80000 ?S" by (simp add: sanitize_def)
  have nb: "\<not> has_match bare_pattern None ?y"
    using y by (rule prefix_of_strip_no_url)
  have st: "stripUrlsFromMarkdown ?y = trim ?y"
    using nb na by (rule strip_settled)
  have "trim ?y = ?y"
  proof (cases "?y = []")
    case True
    then show ?thesis by (simp add: trim_def)
  next
    case False
    then have Sne: "?S \<noteq> []" by (auto simp: sanitize_def)
    from False have "hd ?y = hd ?S" by (simp add: sanitize_def)
    with strip_hd[OF Sne] have h: "\<not> is_space (hd ?y)" by simp
    from ne False have l: "\<not> is_space (last ?y)"
      by (rule not_ends_with_space_last)
    from h l show ?thesis by (intro trim_id) simp
  qed
  with st have "stripUrlsFromMarkdown ?y = ?y" by simp
  moreover have "length ?y \<le> 80000" by (simp add: sanitize_def)
  ultimately show ?thesis by (simp add: sanitize_def[of "sanitize x"])
qed

theorem sanitize_idempotent_if_settled_witness:
  "\<not> has_match angle_pattern None (sanitize (js ''see [t](http://a.b) now'')) \<and>
   \<not> ends_with_space (sanitize (js ''see [t](http://a.b) now'')) \<and>
   sanitize (js ''see [t](http://a.b) now'') = js ''see t now'' \<and>
   sanitize (sanitize (js ''see [t](http://a.b) now'')) = sanitize (js ''see [t](http://a.b) now'')"
proof -
  have v: "sanitize (js ''see [t](http://a.b) now'') = js ''see t now''"
    by (simp add: sanitize_def ev)
  have a: "\<not> has_match angle_pattern None (js ''see t now'')"
    by (simp add: ev)
  have b: "\<not> ends_with_space (js ''see t now'')"
    by (simp add: ends_with_space_def ev)
  from a b v sanitize_idempotent_if_settled[of "js ''see [t](http://a.b) now''"]
  show ?thesis by simp
qed






end
